(* ===== verification/Spin_Prelude.thy ===== *)
theory Spin_Prelude
  imports Complex_Main "HOL-Library.Monad_Syntax"
begin

text \<open>
  Shared vocabulary of the spin-tester development: the named collections of
  unfolding rules that the component theories fill, running a partial step
  function over a list of events, and generic facts on lists of 0/1 flags
  that several component proofs use.
\<close>

named_theorems handler_defs
  "definitions of the component's handlers, unfolded when a handler is evaluated"

named_theorems arr_simps
  "facts about the four-entry array of visited sections"

subsection \<open>Running a partial step function\<close>

text \<open>
  A step function returns \<open>None\<close> when the event cannot happen in the state
  (a timer that is not armed cannot fire). A run of a list of events is the
  composition of the steps, and \<open>None\<close> as soon as one step is impossible.
\<close>

fun fold_opt :: "('s \<Rightarrow> 'e \<Rightarrow> 's option) \<Rightarrow> 'e list \<Rightarrow> 's \<Rightarrow> 's option" where
  "fold_opt f [] s = Some s"
| "fold_opt f (e # es) s = Option.bind (f s e) (fold_opt f es)"

lemma fold_opt_append [simp]:
  "fold_opt f (xs @ ys) s = Option.bind (fold_opt f xs s) (fold_opt f ys)"
  by (induction xs arbitrary: s) (auto split: Option.bind_splits)

lemma fold_opt_replicate_Suc:
  "fold_opt f (replicate (Suc n) e) s = Option.bind (f s e) (fold_opt f (replicate n e))"
  by simp

subsection \<open>Lists of 0/1 flags\<close>

lemma sum_list_01_eq_count:
  "set xs \<subseteq> {0, 1} \<Longrightarrow> sum_list xs = length (filter (\<lambda>v. v = (1::nat)) xs)"
  by (induction xs) auto

lemma set_list_update_01 [arr_simps]:
  "set xs \<subseteq> {0, 1} \<Longrightarrow> v \<in> {0, 1} \<Longrightarrow> set (xs[i := v]) \<subseteq> {0, 1::nat}"
  by (metis insert_subset order_trans set_update_subset_insert)

end
