(* ===== verification/Spin_State.thy ===== *)
theory Spin_State
  imports Spin_Prelude
begin

text \<open>
  The data of the \<open>spin-tester\<close> Vue component (src/spin-tester.js), as one
  record: the reactive fields its \<open>data ()\<close> returns that the methods read or
  write, and the runtime objects the component arms (the sampling interval,
  the \<open>mousemove\<close> listener, the 50ms decay timeout and the pending 5ms
  interpolation callback). JavaScript numbers are modelled as \<open>real\<close>:
  the program never relies on rounding or overflow of doubles.
  Also here: \<open>clearState\<close>, which the tracker calls and which resets fields
  of both the tracker and the speed smoother, and \<open>getMousePosition\<close>.
\<close>

record point =
  px :: real
  py :: real

text \<open>A \<open>mousemove\<close> event: the fields \<open>getMousePosition\<close> reads.\<close>

record mouse_event =
  pageX :: real
  pageY :: real
  clientX :: real
  clientY :: real

text \<open>The \<open>document.body\<close> metrics read by the fallback branch.\<close>

record body_metrics =
  scrollLeft :: real
  scrollTop :: real
  clientLeft :: real
  clientTop :: real

text \<open>
  The five labels \<open>direction\<close> takes: the initial "unknown" label and the
  four sector names of \<open>getDirection\<close> (upper-right, lower-right, lower-left,
  upper-left; Chinese strings in the source).
\<close>

datatype dir = Dir_Unknown | Dir_UpperRight | Dir_LowerRight | Dir_LowerLeft | Dir_UpperLeft

text \<open>
  Who awaits an interpolation: \<open>updateSpeed\<close> (which re-arms the decay timer
  once the interpolation is over) or the decay timer's callback (which does
  nothing after it).
\<close>

datatype caller = ByUpdateSpeed | ByDecayTimer

text \<open>
  The pending \<open>setTimeout(() => interpolate(v), 5)\<close> callback with its
  closure: the value \<open>v\<close> it passes, and the \<open>end\<close>, \<open>damping\<close> and
  \<open>threshold\<close> of the enclosing \<open>interpolateValues\<close> call.
\<close>

record interp_task =
  it_current :: real
  it_end :: real
  it_damping :: real
  it_threshold :: real
  it_caller :: caller

record spin =
  pos :: "point option"
  arrSection :: "nat list"
  mousePosArr :: "point list"
  cumulate :: nat
  speed :: real
  direction :: dir
  isTracking :: bool
  lock :: bool
  trackTimer :: bool
  listening :: bool
  speedTimer :: bool
  pendingTick :: "interp_task option"

text \<open>Fields of \<open>data ()\<close> that no method writes are constants.\<close>

definition timeout :: real where
  "timeout = 20"

definition dampingCoefficient :: real where
  "dampingCoefficient = 1 / 10"

text \<open>The default \<open>threshold = 0.01\<close> of \<open>interpolateValues\<close>.\<close>

definition default_threshold :: real where
  "default_threshold = 1 / 100"

definition data :: spin where
  "data = \<lparr>pos = None, arrSection = [0, 0, 0, 0], mousePosArr = [], cumulate = 0,
           speed = 0, direction = Dir_Unknown, isTracking = True, lock = False,
           trackTimer = False, listening = False, speedTimer = False, pendingTick = None\<rparr>"

definition clearState :: "spin \<Rightarrow> spin" where
  "clearState s = s\<lparr>pos := None, speed := 0, mousePosArr := [],
                    arrSection := replicate (length (arrSection s)) 0,
                    direction := Dir_Unknown\<rparr>"

text \<open>
  \<open>e.pageX || e.pageY\<close> is truthy when one of them is non-zero; otherwise the
  position is computed from the client coordinates and the body's scroll.
\<close>

definition getMousePosition :: "body_metrics \<Rightarrow> mouse_event \<Rightarrow> point" where
  "getMousePosition b e =
     (if pageX e \<noteq> 0 \<or> pageY e \<noteq> 0 then \<lparr>px = pageX e, py = pageY e\<rparr>
      else \<lparr>px = clientX e + scrollLeft b - clientLeft b,
             py = clientY e + scrollTop b - clientTop b\<rparr>)"

lemmas [handler_defs] = clearState_def

lemma clearState_keeps [simp]:
  "cumulate (clearState s) = cumulate s"
  "isTracking (clearState s) = isTracking s"
  "lock (clearState s) = lock s"
  "trackTimer (clearState s) = trackTimer s"
  "listening (clearState s) = listening s"
  "speedTimer (clearState s) = speedTimer s"
  "pendingTick (clearState s) = pendingTick s"
  by (simp_all add: clearState_def)

lemma clearState_resets [simp]:
  "arrSection (clearState s) = replicate (length (arrSection s)) 0"
  "pos (clearState s) = None"
  "mousePosArr (clearState s) = []"
  "speed (clearState s) = 0"
  "direction (clearState s) = Dir_Unknown"
  by (simp_all add: clearState_def)

end
