(* ===== verification/Quadrant.thy ===== *)
theory Quadrant
  imports Spin_State
begin

text \<open>
  The quadrant tracker of src/spin-tester.js: \<open>determineSection\<close> classifies
  the move between two sampled positions into a section 1..4 by the signs of
  its displacement, \<open>getDirection\<close> names the section, and \<open>updateSection\<close>
  marks the section in \<open>arrSection\<close>, counts a revolution when all four are
  marked, and resets the tracking state (\<open>clearState\<close>) on a move that is
  not clockwise. The array of flags is abstracted to the set of visited
  sections (\<open>visited\<close>); \<open>track_spec\<close> is the tracker's contract on that
  abstraction, and \<open>updateSection_abs_step\<close> shows the code implements it.
\<close>

subsection \<open>Operations\<close>

definition determineSection :: "point option \<Rightarrow> point \<Rightarrow> nat option" where
  "determineSection prePos p =
     (case prePos of
        None \<Rightarrow> None
      | Some q \<Rightarrow>
          if px q < px p \<and> py q < py p then Some 1
          else if px q > px p \<and> py q < py p then Some 2
          else if px q > px p \<and> py q > py p then Some 3
          else if px q < px p \<and> py q > py p then Some 4
          else None)"

definition getDirection :: "nat \<Rightarrow> dir" where
  "getDirection section =
     (if section = 1 then Dir_UpperRight
      else if section = 2 then Dir_LowerRight
      else if section = 3 then Dir_LowerLeft
      else if section = 4 then Dir_UpperLeft
      else Dir_Unknown)"

text \<open>The clockwise predecessor and successor tables \<open>[4, 1, 2, 3]\<close> and \<open>[2, 3, 4, 1]\<close>.\<close>

definition secPre :: "nat \<Rightarrow> nat" where
  "secPre section = [4, 1, 2, 3] ! (section - 1)"

definition secNext :: "nat \<Rightarrow> nat" where
  "secNext section = [2, 3, 4, 1] ! (section - 1)"

text \<open>
  \<open>sectionsCount\<close> is computed before the reset of a completed revolution, so the
  clockwise test that follows sees the cleared array but the old count: after a
  revolution it fails and \<open>clearState\<close> runs a second time.
\<close>

definition updateSection :: "nat \<Rightarrow> spin \<Rightarrow> spin" where
  "updateSection section s =
     (let s1 = s\<lparr>arrSection := (arrSection s)[section - 1 := 1]\<rparr>;
          sectionsCount = sum_list (arrSection s1);
          s2 = (if sectionsCount = 4
                then clearState (s1\<lparr>cumulate := Suc (cumulate s1)\<rparr>) else s1);
          pre = secPre section;
          nxt = secNext section;
          clockwise = ((arrSection s2 ! (pre - 1) = 0 \<or> arrSection s2 ! (pre - 1) = 1)
                       \<and> arrSection s2 ! (nxt - 1) = 0 \<and> sectionsCount < 4)
      in if \<not> clockwise then clearState s2 else s2)"

lemmas [handler_defs] = updateSection_def secPre_def secNext_def

subsection \<open>The contract on sets of visited sections\<close>

definition wf_arr :: "nat list \<Rightarrow> bool" where
  "wf_arr arr \<longleftrightarrow> length arr = 4 \<and> set arr \<subseteq> {0, 1}"

definition visited :: "nat list \<Rightarrow> nat set" where
  "visited arr = set (filter (\<lambda>q. arr ! (q - 1) = 1) [1, 2, 3, 4])"

text \<open>The clockwise successor of a section, by arithmetic rather than by table.\<close>

definition cw :: "nat \<Rightarrow> nat" where
  "cw q = q mod 4 + 1"

text \<open>
  The tracker's contract: mark the section; when all four are marked, count a
  revolution and forget them; when the clockwise successor of the section is
  already marked, the move went backwards: forget them without counting.
\<close>

fun track_spec :: "nat \<Rightarrow> nat set \<times> nat \<Rightarrow> nat set \<times> nat" where
  "track_spec q (V, n) =
     (if card (insert q V) = 4 then ({}, Suc n)
      else if cw q \<in> V then ({}, n)
      else (insert q V, n))"

text \<open>
  The sets of visited sections that the runs of the tracker reach: sections
  only, and never all four (a fourth section counts a revolution and clears).
\<close>

definition reach_inv :: "nat set \<Rightarrow> bool" where
  "reach_inv V \<longleftrightarrow> V \<subseteq> {1, 2, 3, 4} \<and> card V < 4"

text \<open>
  The clockwise quarter turn of the point \<open>b\<close> about \<open>a\<close>. Screen coordinates
  grow downwards, so turning the displacement \<open>(dx, dy)\<close> to \<open>(-dy, dx)\<close> is a
  clockwise turn as the user sees it.
\<close>

definition quarter_turn :: "point \<Rightarrow> point \<Rightarrow> point" where
  "quarter_turn a b = \<lparr>px = px a - (py b - py a), py = py a + (px b - px a)\<rparr>"

subsection \<open>Refinement of the array to the set of visited sections\<close>

lemma wf_arr_cases:
  assumes "wf_arr arr"
  obtains a b c d where "arr = [a, b, c, d]" "a \<in> {0, 1}" "b \<in> {0, 1}" "c \<in> {0, 1}" "d \<in> {0, 1}"
proof -
  from assms have "length arr = 4" and sub: "set arr \<subseteq> {0, 1}" by (simp_all add: wf_arr_def)
  then obtain a b c d where "arr = [a, b, c, d]"
    by (auto simp: numeral_eq_Suc length_Suc_conv)
  with sub that show ?thesis by simp
qed

lemma mem_visited: "r \<in> visited arr \<longleftrightarrow> r \<in> {1, 2, 3, 4} \<and> arr ! (r - 1) = 1"
  by (auto simp: visited_def)

lemma visited_sub: "visited arr \<subseteq> {1, 2, 3, 4}"
proof
  fix r assume "r \<in> visited arr"
  then show "r \<in> {1, 2, 3, 4}" by (simp only: mem_visited)
qed

lemma wf_arr_01: "wf_arr arr \<Longrightarrow> i < 4 \<Longrightarrow> arr ! i = 0 \<or> arr ! i = 1"
proof -
  assume wf: "wf_arr arr" and i: "i < 4"
  then have "arr ! i \<in> set arr" by (simp add: wf_arr_def)
  with wf show ?thesis by (auto simp: wf_arr_def)
qed

lemma secPre_range: "q \<in> {1, 2, 3, 4} \<Longrightarrow> secPre q - 1 < 4"
  by (auto simp: secPre_def)

lemma visited_update:
  assumes "length arr = 4" "q \<in> {1, 2, 3, 4}"
  shows "visited (arr[q - 1 := 1]) = insert q (visited arr)"
proof (rule set_eqI)
  fix r
  have "r \<in> {1, 2, 3, 4} \<Longrightarrow> (r - 1 = q - 1) = (r = q)" using assms(2) by auto
  then show "r \<in> visited (arr[q - 1 := 1]) \<longleftrightarrow> r \<in> insert q (visited arr)"
    using assms by (auto simp: mem_visited nth_list_update)
qed

lemma sum_list_card_visited:
  assumes "wf_arr arr" shows "sum_list arr = card (visited arr)"
proof -
  obtain a b c d where arr: "arr = [a, b, c, d]" "a \<in> {0, 1}" "b \<in> {0, 1}" "c \<in> {0, 1}" "d \<in> {0, 1}"
    using assms by (rule wf_arr_cases)
  have "card (visited arr) = length (filter (\<lambda>q. arr ! (q - 1) = 1) [1, 2, 3, 4])"
    unfolding visited_def by (rule distinct_card) simp
  also have "\<dots> = a + b + c + d"
    using arr by auto
  finally show ?thesis using arr by simp
qed

lemma secNext_cw: "q \<in> {1, 2, 3, 4} \<Longrightarrow> secNext q = cw q"
  by (auto simp: secNext_def cw_def)

lemma cw_range: "q \<in> {1, 2, 3, 4} \<Longrightarrow> cw q \<in> {1, 2, 3, 4} \<and> cw q \<noteq> q"
  by (auto simp: cw_def)

lemma wf_arr_unmarked:
  assumes "wf_arr arr" "r \<in> {1, 2, 3, 4}"
  shows "arr ! (r - 1) = 0 \<longleftrightarrow> r \<notin> visited arr"
proof -
  from assms have "r - 1 < length arr" by (auto simp: wf_arr_def)
  then have "arr ! (r - 1) \<in> set arr" by (rule nth_mem)
  with assms(1) have "arr ! (r - 1) \<in> {0, 1}" by (auto simp: wf_arr_def)
  with assms(2) show ?thesis by (auto simp: mem_visited)
qed

lemma wf_arr_update: "wf_arr arr \<Longrightarrow> wf_arr (arr[i := 1])"
  unfolding wf_arr_def using set_list_update_01 [of arr 1 i] by simp

lemma visited_zero: "visited (replicate 4 0) = {}"
  by (simp add: visited_def numeral_eq_Suc)

lemma card_visited_le: "card (visited arr) \<le> 4"
proof -
  have "card (visited arr) \<le> card {1, 2, 3, 4 :: nat}"
    by (rule card_mono) (simp, rule visited_sub)
  then show ?thesis by simp
qed

lemma updateSection_abs_step:
  assumes wf: "wf_arr (arrSection s)" and q: "q \<in> {1, 2, 3, 4}"
  shows "(visited (arrSection (updateSection q s)), cumulate (updateSection q s))
           = track_spec q (visited (arrSection s), cumulate s)"
proof -
  let ?V = "visited (arrSection s)"
  let ?arr1 = "(arrSection s)[q - 1 := 1]"
  have len: "length ?arr1 = 4" using wf by (simp add: wf_arr_def)
  have wf1: "wf_arr ?arr1" using wf by (rule wf_arr_update)
  have len0: "length (arrSection s) = 4" using wf by (simp add: wf_arr_def)
  then have V1: "visited ?arr1 = insert q ?V" using q by (rule visited_update)
  have sum1: "sum_list ?arr1 = card (insert q ?V)"
    using sum_list_card_visited [OF wf1] V1 by simp
  have nxt: "?arr1 ! (secNext q - 1) = 0 \<longleftrightarrow> cw q \<notin> ?V"
    using wf_arr_unmarked [OF wf1, of "cw q"] cw_range [OF q] V1 secNext_cw [OF q] by simp
  have pre: "?arr1 ! (secPre q - 1) = 0 \<or> ?arr1 ! (secPre q - 1) = 1"
    using wf1 secPre_range [OF q] by (rule wf_arr_01)
  show ?thesis
  proof (cases "card (insert q ?V) = 4")
    case True
    then show ?thesis
      using sum1 [simplified] by (simp add: updateSection_def Let_def len0 visited_zero)
  next
    case False
    then have lt: "card (insert q ?V) < 4"
      using card_visited_le [of ?arr1] V1 by simp
    show ?thesis
      using False lt nxt [simplified] V1 [simplified] pre [simplified] sum1 [simplified]
      by (auto simp add: updateSection_def Let_def len0 visited_zero)
  qed
qed

subsection \<open>Runs of the contract\<close>

lemma cw_simps [simp]: "cw 1 = 2" "cw (Suc 0) = 2" "cw 2 = 3" "cw 3 = 4" "cw 4 = 1"
  by (simp_all add: cw_def)

lemma section_cases:
  assumes "q \<in> {1, 2, 3, 4 :: nat}"
  obtains "q = 1" | "q = 2" | "q = 3" | "q = 4"
  using assms by blast

lemma cw_cycle:
  assumes "a \<in> {1, 2, 3, 4}"
  shows "cw a \<in> {1, 2, 3, 4}" "cw (cw (cw (cw a))) = a"
    and "distinct [a, cw a, cw (cw a), cw (cw (cw a))]"
    and "r \<in> {1, 2, 3, 4} \<longleftrightarrow> r = a \<or> r = cw a \<or> r = cw (cw a) \<or> r = cw (cw (cw a))"
  using assms by (auto elim!: section_cases)

lemma track_spec_inv:
  assumes "reach_inv V" "q \<in> {1, 2, 3, 4}" "track_spec q (V, n) = (W, m)"
  shows "reach_inv W \<and> n \<le> m"
proof -
  have sub: "insert q V \<subseteq> {1, 2, 3, 4}" using assms(1,2) by (simp add: reach_inv_def)
  have le: "card (insert q V) \<le> 4" using card_mono [OF _ sub] by simp
  show ?thesis
  proof (cases "card (insert q V) = 4")
    case True
    with assms(3) show ?thesis by (simp add: reach_inv_def)
  next
    case False
    with le have "card (insert q V) < 4" by simp
    with False assms(3) sub show ?thesis by (auto simp: reach_inv_def split: if_splits)
  qed
qed

lemma fold_track_spec_inv:
  "reach_inv V \<Longrightarrow> set ss \<subseteq> {1, 2, 3, 4} \<Longrightarrow> fold track_spec ss (V, n) = (W, m)
   \<Longrightarrow> reach_inv W \<and> n \<le> m"
proof (induction ss arbitrary: V n)
  case Nil
  then show ?case by simp
next
  case (Cons x xs)
  obtain V' n' where st: "track_spec x (V, n) = (V', n')" by fastforce
  with Cons.prems have "reach_inv V' \<and> n \<le> n'" by (intro track_spec_inv) auto
  with Cons.prems st Cons.IH [of V' n'] show ?case by auto
qed

text \<open>Inversion: which step can produce an arc of visited sections.\<close>

lemma track_spec_to_arc1:
  assumes "a \<in> {1, 2, 3, 4}" "track_spec q (V, n) = ({a}, m)"
  shows "q = a \<and> m = n \<and> (V = {} \<or> V = {a})"
  using assms by (auto split: if_splits)

lemma track_spec_to_arc2:
  assumes a: "a \<in> {1, 2, 3, 4}" and st: "track_spec q (V, n) = ({a, cw a}, m)"
  shows "q = cw a \<and> m = n \<and> (V = {a} \<or> V = {a, cw a})"
proof -
  have d: "cw a \<noteq> a" using cw_cycle(3) [OF a] by simp
  from st have ins: "insert q V = {a, cw a}" and nx: "cw q \<notin> V" and mn: "m = n"
    by (simp_all split: if_splits)
  have q: "q = cw a"
  proof (rule ccontr)
    assume "q \<noteq> cw a"
    then have "q = a" using ins by blast
    moreover have "cw a \<in> insert q V" using ins by simp
    ultimately have "cw a \<in> V" using d by simp
    with nx \<open>q = a\<close> show False by simp
  qed
  have "a \<in> insert q V" using ins by simp
  then have "a \<in> V" using d q by simp
  moreover have "V \<subseteq> {a, cw a}" using ins by blast
  ultimately have "V = {a} \<or> V = {a, cw a}" by blast
  with q mn show ?thesis by simp
qed

lemma track_spec_to_arc3:
  assumes a: "a \<in> {1, 2, 3, 4}"
    and st: "track_spec q (V, n) = ({a, cw a, cw (cw a)}, m)"
  shows "q = cw (cw a) \<and> m = n \<and> (V = {a, cw a} \<or> V = {a, cw a, cw (cw a)})"
proof -
  have d: "a \<noteq> cw a" "a \<noteq> cw (cw a)" "cw a \<noteq> cw (cw a)"
    using cw_cycle(3) [OF a] by simp_all
  from st have ins: "insert q V = {a, cw a, cw (cw a)}" and nx: "cw q \<notin> V" and mn: "m = n"
    by (simp_all split: if_splits)
  have qin: "q = a \<or> q = cw a \<or> q = cw (cw a)"
    using ins by (metis insertCI insertE singletonD)
  have "q \<noteq> a"
  proof
    assume qa: "q = a"
    have "cw a \<in> insert q V" using ins by simp
    with qa d have "cw a \<in> V" by simp
    with nx qa show False by simp
  qed
  moreover have "q \<noteq> cw a"
  proof
    assume qa: "q = cw a"
    have "cw (cw a) \<in> insert q V" using ins by simp
    with qa d have "cw (cw a) \<in> V" by simp
    with nx qa show False by simp
  qed
  ultimately have q: "q = cw (cw a)" using qin by simp
  have "a \<in> insert q V" "cw a \<in> insert q V" using ins by simp_all
  then have av: "a \<in> V" "cw a \<in> V" using d q by simp_all
  have sub: "V \<subseteq> {a, cw a, cw (cw a)}" using ins by (metis subset_insertI)
  have "V = {a, cw a} \<or> V = {a, cw a, cw (cw a)}"
  proof (cases "cw (cw a) \<in> V")
    case True
    with av sub show ?thesis by (simp add: subset_antisym)
  next
    case False
    with sub have "V \<subseteq> {a, cw a}" by blast
    with av show ?thesis by (simp add: subset_antisym)
  qed
  with q mn show ?thesis by simp
qed

lemma track_spec_count:
  assumes inv: "reach_inv V" and q: "q \<in> {1, 2, 3, 4}"
    and st: "track_spec q (V, n) = (W, Suc n)"
  shows "V = {cw q, cw (cw q), cw (cw (cw q))}"
proof -
  have c4: "card (insert q V) = 4" using st by (simp split: if_splits)
  have fin: "finite V" and cV: "card V < 4" and sub: "V \<subseteq> {1, 2, 3, 4}"
    using inv by (auto simp: reach_inv_def intro: finite_subset)
  have "q \<notin> V"
  proof
    assume "q \<in> V"
    then have "insert q V = V" by (rule insert_absorb)
    with c4 cV show False by simp
  qed
  have sub4: "insert q V \<subseteq> {1, 2, 3, 4}" using q sub by (rule insert_subsetI)
  have all: "insert q V = {1, 2, 3, 4}"
    by (rule card_subset_eq [OF _ sub4]) (simp_all add: c4)
  show ?thesis
  proof (rule set_eqI)
    fix r
    have "r \<in> V \<longleftrightarrow> r \<in> {1, 2, 3, 4} \<and> r \<noteq> q"
      using all \<open>q \<notin> V\<close> by blast
    also have "\<dots> \<longleftrightarrow> r = cw q \<or> r = cw (cw q) \<or> r = cw (cw (cw q))"
      using cw_cycle(3,4) [OF q] by auto
    finally show "r \<in> V \<longleftrightarrow> r \<in> {cw q, cw (cw q), cw (cw (cw q))}" by simp
  qed
qed

lemma fold_track_spec_arc1:
  assumes "a \<in> {1, 2, 3, 4}"
  shows "fold track_spec ss ({}, n) = ({a}, m) \<Longrightarrow> \<exists>ys i. 0 < i \<and> ss = ys @ replicate i a"
proof (induction ss arbitrary: m rule: rev_induct)
  case Nil
  then show ?case by simp
next
  case (snoc x xs)
  obtain V' m' where f: "fold track_spec xs ({}, n) = (V', m')" by fastforce
  with snoc.prems have "track_spec x (V', m') = ({a}, m)" by simp
  with assms have x: "x = a" and V': "V' = {} \<or> V' = {a}"
    using track_spec_to_arc1 by blast+
  show ?case
  proof (cases "V' = {a}")
    case True
    with f snoc.IH obtain ys i where "0 < i" "xs = ys @ replicate i a" by blast
    with x have "xs @ [x] = ys @ replicate (Suc i) a" by (simp add: replicate_append_same)
    then show ?thesis by blast
  next
    case False
    with x have "xs @ [x] = xs @ replicate 1 a" by simp
    then show ?thesis by blast
  qed
qed

lemma fold_track_spec_arc2:
  assumes "a \<in> {1, 2, 3, 4}"
  shows "fold track_spec ss ({}, n) = ({a, cw a}, m)
         \<Longrightarrow> \<exists>ys i j. 0 < i \<and> 0 < j \<and> ss = ys @ replicate i a @ replicate j (cw a)"
proof (induction ss arbitrary: m rule: rev_induct)
  case Nil
  then show ?case by simp
next
  case (snoc x xs)
  obtain V' m' where f: "fold track_spec xs ({}, n) = (V', m')" by fastforce
  with snoc.prems have "track_spec x (V', m') = ({a, cw a}, m)" by simp
  with assms have x: "x = cw a" and V': "V' = {a} \<or> V' = {a, cw a}"
    using track_spec_to_arc2 by blast+
  show ?case
  proof (cases "V' = {a, cw a}")
    case True
    with f snoc.IH obtain ys i j where "0 < i" "0 < j" "xs = ys @ replicate i a @ replicate j (cw a)"
      by blast
    with x have "xs @ [x] = ys @ replicate i a @ replicate (Suc j) (cw a)"
      by (simp add: replicate_append_same)
    with \<open>0 < i\<close> show ?thesis by blast
  next
    case False
    with V' f obtain ys i where "0 < i" "xs = ys @ replicate i a"
      using fold_track_spec_arc1 [OF assms] by blast
    with x have "xs @ [x] = ys @ replicate i a @ replicate 1 (cw a)" by simp
    with \<open>0 < i\<close> show ?thesis by blast
  qed
qed

lemma fold_track_spec_arc3:
  assumes "a \<in> {1, 2, 3, 4}"
  shows "fold track_spec ss ({}, n) = ({a, cw a, cw (cw a)}, m)
         \<Longrightarrow> \<exists>ys i j k. 0 < i \<and> 0 < j \<and> 0 < k \<and>
               ss = ys @ replicate i a @ replicate j (cw a) @ replicate k (cw (cw a))"
proof (induction ss arbitrary: m rule: rev_induct)
  case Nil
  then show ?case by simp
next
  case (snoc x xs)
  obtain V' m' where f: "fold track_spec xs ({}, n) = (V', m')" by fastforce
  with snoc.prems have "track_spec x (V', m') = ({a, cw a, cw (cw a)}, m)" by simp
  with assms have x: "x = cw (cw a)" and V': "V' = {a, cw a} \<or> V' = {a, cw a, cw (cw a)}"
    using track_spec_to_arc3 by blast+
  show ?case
  proof (cases "V' = {a, cw a, cw (cw a)}")
    case True
    with f snoc.IH obtain ys i j k where "0 < i" "0 < j" "0 < k"
        "xs = ys @ replicate i a @ replicate j (cw a) @ replicate k (cw (cw a))"
      by blast
    with x have "xs @ [x] = ys @ replicate i a @ replicate j (cw a) @ replicate (Suc k) (cw (cw a))"
      by (simp add: replicate_append_same)
    with \<open>0 < i\<close> \<open>0 < j\<close> show ?thesis by blast
  next
    case False
    with V' f obtain ys i j where "0 < i" "0 < j" "xs = ys @ replicate i a @ replicate j (cw a)"
      using fold_track_spec_arc2 [OF assms] by blast
    with x have "xs @ [x] = ys @ replicate i a @ replicate j (cw a) @ replicate 1 (cw (cw a))"
      by simp
    with \<open>0 < i\<close> \<open>0 < j\<close> show ?thesis by blast
  qed
qed

lemma track_spec_revolution_abs:
  assumes ss: "set ss \<subseteq> {1, 2, 3, 4}" and q: "q \<in> {1, 2, 3, 4}"
    and f: "fold track_spec ss ({}, n) = (V, m)" and st: "track_spec q (V, m) = (W, Suc m)"
  shows "\<exists>ys a i j k. a \<in> {1, 2, 3, 4} \<and> 0 < i \<and> 0 < j \<and> 0 < k \<and>
           ss = ys @ replicate i a @ replicate j (cw a) @ replicate k (cw (cw a)) \<and>
           q = cw (cw (cw a))"
proof -
  have "reach_inv {}" by (simp add: reach_inv_def)
  then have "reach_inv V" using fold_track_spec_inv [OF _ ss f] by simp
  then have V: "V = {cw q, cw (cw q), cw (cw (cw q))}" using q st by (rule track_spec_count)
  have a: "cw q \<in> {1, 2, 3, 4}" using cw_cycle(1) [OF q] .
  have F: "fold track_spec ss ({}, n) = ({cw q, cw (cw q), cw (cw (cw q))}, m)" using f V by simp
  obtain ys i j k where ijk: "0 < i" "0 < j" "0 < k"
    and sseq: "ss = ys @ replicate i (cw q) @ replicate j (cw (cw q)) @ replicate k (cw (cw (cw q)))"
    using fold_track_spec_arc3 [OF a F] by (elim exE conjE)
  have "q = cw (cw (cw (cw q)))" using cw_cycle(2) [OF q] by simp
  with a ijk sseq show ?thesis by (intro exI [of _ ys] exI [of _ "cw q"] exI [of _ i] exI [of _ j] exI [of _ k]) simp
qed

lemma fold_track_spec_stay:
  "q \<in> V \<Longrightarrow> card V \<noteq> 4 \<Longrightarrow> cw q \<notin> V \<Longrightarrow> fold track_spec (replicate k q) (V, n) = (V, n)"
  by (induction k) (simp_all add: insert_absorb)

lemma fold_track_spec_block:
  assumes "0 < k" "card (insert q V) \<noteq> 4" "cw q \<notin> insert q V"
  shows "fold track_spec (replicate k q) (V, n) = (insert q V, n)"
proof -
  obtain k' where k: "k = Suc k'" using assms(1) by (cases k) auto
  have "track_spec q (V, n) = (insert q V, n)" using assms(2,3) by simp
  then show ?thesis using k assms(2,3) fold_track_spec_stay [of q "insert q V" k' n] by simp
qed

lemma fold_track_spec_walk:
  assumes a: "a \<in> {1, 2, 3, 4}" and ijk: "0 < i" "0 < j" "0 < k"
  shows "fold track_spec (replicate i a @ replicate j (cw a) @ replicate k (cw (cw a))
                          @ [cw (cw (cw a))]) ({}, n) = ({}, Suc n)"
proof -
  have d: "distinct [a, cw a, cw (cw a), cw (cw (cw a))]" using cw_cycle(3) [OF a] .
  have cyc: "cw (cw (cw (cw a))) = a" using cw_cycle(2) [OF a] .
  have s1: "fold track_spec (replicate i a) ({}, n) = ({a}, n)"
    using fold_track_spec_block [OF ijk(1), of a "{}" n] d by simp
  have s2: "fold track_spec (replicate j (cw a)) ({a}, n) = ({cw a, a}, n)"
    using fold_track_spec_block [OF ijk(2), of "cw a" "{a}" n] d by auto
  have s3: "fold track_spec (replicate k (cw (cw a))) ({cw a, a}, n) = ({cw (cw a), cw a, a}, n)"
    using fold_track_spec_block [OF ijk(3), of "cw (cw a)" "{cw a, a}" n] d by auto
  have s4: "track_spec (cw (cw (cw a))) ({cw (cw a), cw a, a}, n) = ({}, Suc n)"
    using d by auto
  show ?thesis using s1 s2 s3 s4 by simp
qed

subsection \<open>Runs of the code\<close>

lemma wf_arr_zero: "wf_arr [0, 0, 0, 0]"
  by (simp add: wf_arr_def)

lemma visited_zero_list: "visited [0, 0, 0, 0] = {}"
  by (simp add: visited_def)

lemma wf_arr_visited_empty: "wf_arr arr \<Longrightarrow> visited arr = {} \<Longrightarrow> arr = [0, 0, 0, 0]"
proof -
  assume wf: "wf_arr arr" and e: "visited arr = {}"
  then obtain a b c d where arr: "arr = [a, b, c, d]" "a \<in> {0, 1}" "b \<in> {0, 1}" "c \<in> {0, 1}" "d \<in> {0, 1}"
    by (blast elim: wf_arr_cases)
  have "a \<noteq> 1" "b \<noteq> 1" "c \<noteq> 1" "d \<noteq> 1"
    using e arr(1) by (auto simp: visited_def split: if_splits)
  with arr show ?thesis by auto
qed

lemma updateSection_wf_arr:
  assumes wf: "wf_arr (arrSection s)"
  shows "wf_arr (arrSection (updateSection q s))"
proof -
  have len: "length ((arrSection s)[q - 1 := 1]) = 4" using wf by (simp add: wf_arr_def)
  have z: "wf_arr (replicate 4 0)" by (simp add: wf_arr_def)
  have u: "wf_arr ((arrSection s)[q - 1 := 1])" using wf by (rule wf_arr_update)
  show ?thesis
    using z u len [simplified] by (simp add: updateSection_def Let_def)
qed

lemma fold_updateSection_abs:
  "wf_arr (arrSection s) \<Longrightarrow> set ss \<subseteq> {1, 2, 3, 4} \<Longrightarrow>
   wf_arr (arrSection (fold updateSection ss s)) \<and>
   (visited (arrSection (fold updateSection ss s)), cumulate (fold updateSection ss s))
     = fold track_spec ss (visited (arrSection s), cumulate s)"
proof (induction ss arbitrary: s)
  case Nil
  then show ?case by simp
next
  case (Cons x xs)
  then have x: "x \<in> {1, 2, 3, 4}" by simp
  have wf': "wf_arr (arrSection (updateSection x s))"
    using Cons.prems(1) by (rule updateSection_wf_arr)
  have "(visited (arrSection (updateSection x s)), cumulate (updateSection x s))
          = track_spec x (visited (arrSection s), cumulate s)"
    using Cons.prems(1) x by (rule updateSection_abs_step)
  with Cons.IH [OF wf'] Cons.prems(2) show ?case by simp
qed


lemma determineSection_range: "determineSection p q = Some k \<Longrightarrow> k \<in> {1, 2, 3, 4}"
  by (cases p) (simp_all add: determineSection_def split: if_splits)

subsection \<open>Properties of the tracker\<close>

text \<open>
  C1. A revolution is only ever counted at the end of a clockwise walk: when
  \<open>updateSection\<close>, applied after any sequence of sections fed from a cleared
  array, increments \<open>cumulate\<close>, the sequence ends with one or more samples of
  some section \<open>a\<close>, then one or more of its clockwise successor, then one or
  more of the next, and the counting section is the fourth one clockwise.
\<close>

theorem revolution_only_after_clockwise_walk:
  assumes s: "arrSection s = [0, 0, 0, 0]" and ss: "set ss \<subseteq> {1, 2, 3, 4}"
    and q: "q \<in> {1, 2, 3, 4}"
    and rev: "cumulate (updateSection q (fold updateSection ss s))
                = Suc (cumulate (fold updateSection ss s))"
  shows "\<exists>ys a i j k. a \<in> {1, 2, 3, 4} \<and> 0 < i \<and> 0 < j \<and> 0 < k \<and>
           ss = ys @ replicate i a @ replicate j (cw a) @ replicate k (cw (cw a)) \<and>
           q = cw (cw (cw a))"
proof -
  let ?t = "fold updateSection ss s"
  have wf0: "wf_arr (arrSection s)" using s wf_arr_zero by simp
  have F: "wf_arr (arrSection ?t) \<and>
      (visited (arrSection ?t), cumulate ?t) = fold track_spec ss ({}, cumulate s)"
    using fold_updateSection_abs [OF wf0 ss] s visited_zero_list by simp
  have step: "(visited (arrSection (updateSection q ?t)), cumulate (updateSection q ?t))
                = track_spec q (visited (arrSection ?t), cumulate ?t)"
    using F q by (simp add: updateSection_abs_step)
  show ?thesis
  proof (rule track_spec_revolution_abs [OF ss q])
    show "fold track_spec ss ({}, cumulate s) = (visited (arrSection ?t), cumulate ?t)"
      using F by simp
    show "track_spec q (visited (arrSection ?t), cumulate ?t)
            = (visited (arrSection (updateSection q ?t)), Suc (cumulate ?t))"
      using step rev by simp
  qed
qed

theorem revolution_only_after_clockwise_walk_witness:
  "\<exists>ys a i j k. a \<in> {1, 2, 3, 4} \<and> 0 < i \<and> 0 < j \<and> 0 < k \<and>
     [1, 2, 3] = ys @ replicate i a @ replicate j (cw a) @ replicate k (cw (cw a)) \<and>
     (4::nat) = cw (cw (cw a))"
proof (rule revolution_only_after_clockwise_walk [of data])
  show "cumulate (updateSection 4 (fold updateSection [1, 2, 3] data))
          = Suc (cumulate (fold updateSection [1, 2, 3] data))"
    by (simp add: updateSection_def secPre_def secNext_def clearState_def data_def)
qed (simp_all add: data_def)

text \<open>
  C2. Conversely, every clockwise walk counts: from a cleared array, samples of a
  section \<open>a\<close> (repeated any positive number of times, so jitter inside a
  section is tolerated), then of its successor, then of the next, then one of
  the fourth section, increment \<open>cumulate\<close> by exactly one and leave the array
  cleared.
\<close>

theorem clockwise_walk_counts_one_revolution:
  assumes s: "arrSection s = [0, 0, 0, 0]" and a: "a \<in> {1, 2, 3, 4}"
    and ijk: "0 < i" "0 < j" "0 < k"
  shows "cumulate (fold updateSection (replicate i a @ replicate j (cw a) @ replicate k (cw (cw a))
                                       @ [cw (cw (cw a))]) s) = Suc (cumulate s)
       \<and> arrSection (fold updateSection (replicate i a @ replicate j (cw a) @ replicate k (cw (cw a))
                                       @ [cw (cw (cw a))]) s) = [0, 0, 0, 0]"
proof -
  let ?w = "replicate i a @ replicate j (cw a) @ replicate k (cw (cw a)) @ [cw (cw (cw a))]"
  have c: "cw a \<in> {1, 2, 3, 4}" "cw (cw a) \<in> {1, 2, 3, 4}" "cw (cw (cw a)) \<in> {1, 2, 3, 4}"
    using cw_cycle(1) a by blast+
  have ws: "set ?w \<subseteq> {1, 2, 3, 4}" using a c by auto
  have wf0: "wf_arr (arrSection s)" using s wf_arr_zero by simp
  have F: "wf_arr (arrSection (fold updateSection ?w s)) \<and>
      (visited (arrSection (fold updateSection ?w s)), cumulate (fold updateSection ?w s))
        = ({}, Suc (cumulate s))"
    using fold_updateSection_abs [OF wf0 ws] s visited_zero_list fold_track_spec_walk [OF a ijk]
    by simp
  then show ?thesis using wf_arr_visited_empty by auto
qed

theorem clockwise_walk_counts_one_revolution_witness:
  "cumulate (fold updateSection (replicate 2 1 @ replicate 1 (cw 1) @ replicate 1 (cw (cw 1))
                                  @ [cw (cw (cw 1))]) data) = Suc (cumulate data)
   \<and> arrSection (fold updateSection (replicate 2 1 @ replicate 1 (cw 1) @ replicate 1 (cw (cw 1))
                                  @ [cw (cw (cw 1))]) data) = [0, 0, 0, 0]"
  by (rule clockwise_walk_counts_one_revolution) (simp_all add: data_def)

text \<open>
  C3. \<open>updateSection\<close> implements the tracker's contract \<open>track_spec\<close> on the set
  of visited sections, and keeps the array a four-entry array of 0/1 flags.
\<close>

theorem updateSection_implements_track_spec:
  assumes "wf_arr (arrSection s)" and "q \<in> {1, 2, 3, 4}"
  shows "wf_arr (arrSection (updateSection q s))
       \<and> (visited (arrSection (updateSection q s)), cumulate (updateSection q s))
           = track_spec q (visited (arrSection s), cumulate s)"
  using updateSection_wf_arr [OF assms(1)] updateSection_abs_step [OF assms] by simp

theorem updateSection_implements_track_spec_witness:
  "wf_arr (arrSection (updateSection 2 (data\<lparr>arrSection := [1, 0, 0, 0]\<rparr>)))
   \<and> (visited (arrSection (updateSection 2 (data\<lparr>arrSection := [1, 0, 0, 0]\<rparr>))),
       cumulate (updateSection 2 (data\<lparr>arrSection := [1, 0, 0, 0]\<rparr>)))
     = track_spec 2 (visited [1, 0, 0, 0], cumulate data)"
  using updateSection_implements_track_spec [of "data\<lparr>arrSection := [1, 0, 0, 0]\<rparr>" 2]
  by (simp add: wf_arr_def)

text \<open>
  C4. The classification turns with the move: turning a move a quarter turn
  clockwise about its start moves its section to the clockwise successor
  (an indeterminate move stays indeterminate), and section 1 is exactly the
  moves to the right and down. So the four sections are the four open
  quadrants of the displacement, numbered in the clockwise order that
  \<open>updateSection\<close> expects.
\<close>

theorem determineSection_quarter_turn:
  "determineSection (Some a) (quarter_turn a b) = map_option cw (determineSection (Some a) b)
   \<and> (determineSection (Some a) b = Some 1 \<longleftrightarrow> px a < px b \<and> py a < py b)"
  by (cases "px a < px b"; cases "px b < px a"; cases "py a < py b"; cases "py b < py a")
     (simp_all add: determineSection_def quarter_turn_def)

text \<open>
  C5. A move is classified exactly when there is a previous sample and the move
  has a non-zero x and a non-zero y displacement; the first sample and
  axis-aligned moves are indeterminate (None), and every classified move lands
  in one of the sections 1..4.
\<close>

theorem determineSection_defined:
  "(determineSection prePos p \<noteq> None \<longleftrightarrow>
      (\<exists>q. prePos = Some q \<and> px q \<noteq> px p \<and> py q \<noteq> py p))
   \<and> (determineSection prePos p = Some sec \<longrightarrow> sec \<in> {1, 2, 3, 4})"
  by (cases prePos) (auto simp: determineSection_def linorder_neq_iff)

theorem determineSection_defined_witness:
  "determineSection (Some \<lparr>px = 0, py = 0\<rparr>) \<lparr>px = 1, py = 1\<rparr> \<noteq> None \<and> (1::nat) \<in> {1, 2, 3, 4}"
  using determineSection_defined [of "Some \<lparr>px = 0, py = 0\<rparr>" "\<lparr>px = 1, py = 1\<rparr>" 1]
  by (simp add: determineSection_def)



text \<open>
  C7. Invariant of the visited-sections array: whatever section is fed, a
  well-formed array stays a four-entry array of 0/1 flags, and after the call
  fewer than four flags are set (a fourth flag counts a revolution and clears).
\<close>

theorem updateSection_invariant:
  assumes wf: "wf_arr (arrSection s)"
  shows "wf_arr (arrSection (updateSection q s)) \<and> sum_list (arrSection (updateSection q s)) < 4"
proof -
  let ?arr1 = "(arrSection s)[q - 1 := 1]"
  have len: "length ?arr1 = 4" using wf by (simp add: wf_arr_def)
  have "arrSection (updateSection q s) = replicate 4 0
        \<or> (arrSection (updateSection q s) = ?arr1 \<and> sum_list ?arr1 < 4)"
    using len [simplified] by (simp add: updateSection_def Let_def)
  moreover have "sum_list (replicate 4 (0::nat)) < 4" by (simp add: numeral_eq_Suc)
  ultimately show ?thesis using updateSection_wf_arr [OF wf] by auto
qed

theorem updateSection_invariant_witness:
  "wf_arr (arrSection (updateSection 4 (data\<lparr>arrSection := [1, 1, 1, 0]\<rparr>)))
   \<and> sum_list (arrSection (updateSection 4 (data\<lparr>arrSection := [1, 1, 1, 0]\<rparr>))) < 4"
  by (rule updateSection_invariant) (simp add: wf_arr_def)

end
