(* ===== verification/Smoother.thy ===== *)
theory Smoother
  imports Spin_State
begin

text \<open>
  The speed smoother of src/spin-tester.js. \<open>calcDistance\<close> and \<open>lerp\<close> are
  the arithmetic helpers; \<open>interpolate\<close> is the recursion of the closure
  inside \<open>interpolateValues\<close>, as a loop that may not return
  (\<open>partial_function (option)\<close>), giving the values it writes to
  \<open>this.speed\<close> before it resolves. The timer-driven execution is modelled
  on the component state: \<open>interpolateValues\<close> (the lock test, then the first
  call of the closure), \<open>interpolateTick\<close> (one call of the closure),
  \<open>interpTimerFires\<close> (the pending 5ms callback firing), \<open>updateSpeed\<close> and
  \<open>speedTimerFires\<close> (the 50ms decay callback), with \<open>rearmDecay\<close> for what
  the awaiting caller does once the interpolation is over. Promise resolution
  and the \<open>finally\<close> run as microtasks before any timer, so they belong to the
  step that resolves.
\<close>

subsection \<open>Operations\<close>

definition calcDistance :: "point \<Rightarrow> point \<Rightarrow> real" where
  "calcDistance p1 p2 =
     (let diffX = px p2 - px p1; diffY = py p2 - py p1 in sqrt (diffX * diffX + diffY * diffY))"

definition lerp :: "real \<Rightarrow> real \<Rightarrow> real \<Rightarrow> real" where
  "lerp start target amt = (1 - amt) * start + amt * target"

partial_function (option) interpolate :: "real \<Rightarrow> real \<Rightarrow> real \<Rightarrow> real \<Rightarrow> real list option" where
  "interpolate current target damping threshold =
     (let interpolatedValue = lerp current target damping;
          difference = \<bar>interpolatedValue - target\<bar>
      in if difference < threshold then Some []
         else Option.bind (interpolate interpolatedValue target damping threshold)
                (\<lambda>vs. Some (interpolatedValue # vs)))"

declare interpolate.simps [code]

definition tick_value :: "real \<Rightarrow> real \<Rightarrow> real \<Rightarrow> nat \<Rightarrow> real" where
  "tick_value start target damping k = target + (1 - damping) ^ k * (start - target)"

text \<open>
  What the caller does once the interpolation it awaits is over: \<open>updateSpeed\<close>
  clears and re-arms the 50ms decay timeout; the decay callback does nothing.
\<close>

definition rearmDecay :: "caller \<Rightarrow> spin \<Rightarrow> spin" where
  "rearmDecay c s = (case c of ByUpdateSpeed \<Rightarrow> s\<lparr>speedTimer := True\<rparr> | ByDecayTimer \<Rightarrow> s)"

text \<open>
  One call of the \<open>interpolate\<close> closure: either the value is within the
  threshold, the promise resolves, \<open>this.speed = end\<close> and the \<open>finally\<close>
  releases the lock before the caller resumes; or the value is written to
  \<open>this.speed\<close> and the next call is scheduled 5ms later.
\<close>

definition interpolateTick :: "interp_task \<Rightarrow> spin \<Rightarrow> spin" where
  "interpolateTick t s =
     (let interpolatedValue = lerp (it_current t) (it_end t) (it_damping t);
          difference = \<bar>interpolatedValue - it_end t\<bar>
      in if difference < it_threshold t
         then rearmDecay (it_caller t) (s\<lparr>speed := it_end t, lock := False, pendingTick := None\<rparr>)
         else s\<lparr>speed := interpolatedValue, pendingTick := Some (t\<lparr>it_current := interpolatedValue\<rparr>)\<rparr>)"

definition interpolateValues :: "real \<Rightarrow> real \<Rightarrow> real \<Rightarrow> real \<Rightarrow> caller \<Rightarrow> spin \<Rightarrow> spin" where
  "interpolateValues start target damping threshold c s =
     (if lock s then rearmDecay c s
      else interpolateTick \<lparr>it_current = start, it_end = target, it_damping = damping,
                            it_threshold = threshold, it_caller = c\<rparr> (s\<lparr>lock := True\<rparr>))"

definition updateSpeed :: "point \<Rightarrow> point \<Rightarrow> spin \<Rightarrow> spin" where
  "updateSpeed prePos p s =
     (let distance = calcDistance prePos p;
          targetSpeed = (if distance > 0 then distance / timeout else 0)
      in interpolateValues (speed s) targetSpeed dampingCoefficient default_threshold ByUpdateSpeed s)"

text \<open>The decay timeout's callback, 50ms after \<open>updateSpeed\<close> armed it.\<close>

definition speedTimerFires :: "spin \<Rightarrow> spin" where
  "speedTimerFires s =
     interpolateValues (speed s) 0 dampingCoefficient default_threshold ByDecayTimer
       (s\<lparr>speedTimer := False\<rparr>)"

text \<open>The pending 5ms callback fires; there is none when no interpolation runs.\<close>

definition interpTimerFires :: "spin \<Rightarrow> spin option" where
  "interpTimerFires s =
     (case pendingTick s of
        None \<Rightarrow> None
      | Some t \<Rightarrow> Some (interpolateTick t (s\<lparr>pendingTick := None\<rparr>)))"

fun fireTicks :: "nat \<Rightarrow> spin \<Rightarrow> spin option" where
  "fireTicks 0 s = Some s"
| "fireTicks (Suc n) s = Option.bind (interpTimerFires s) (fireTicks n)"

subsection \<open>The loop\<close>

lemma lerp_dist: "lerp c e d - e = (1 - d) * (c - e)"
  by (simp add: lerp_def algebra_simps)

lemma interpolate_step:
  "interpolate c e d th =
     (if \<bar>lerp c e d - e\<bar> < th then Some []
      else map_option (Cons (lerp c e d)) (interpolate (lerp c e d) e d th))"
  by (subst interpolate.simps) (auto simp: Let_def split: Option.bind_splits option.splits)

lemma tick_value_lerp: "tick_value (lerp c e d) e d k = tick_value c e d (Suc k)"
  by (simp add: tick_value_def lerp_dist mult_ac)

lemma tick_value_1: "tick_value c e d (Suc 0) = lerp c e d"
  by (simp add: tick_value_def lerp_def algebra_simps)

lemma interpolate_Nil:
  "interpolate c e d th = Some [] \<Longrightarrow> \<bar>lerp c e d - e\<bar> < th"
  by (subst (asm) interpolate_step) (auto split: if_splits)

lemma interpolate_Cons:
  assumes "interpolate c e d th = Some (v # vs)"
  shows "\<not> \<bar>lerp c e d - e\<bar> < th \<and> v = lerp c e d \<and> interpolate (lerp c e d) e d th = Some vs"
proof -
  have eq: "(if \<bar>lerp c e d - e\<bar> < th then Some []
             else map_option (Cons (lerp c e d)) (interpolate (lerp c e d) e d th)) = Some (v # vs)"
    using assms interpolate_step [of c e d th] by simp
  then have nb: "\<not> \<bar>lerp c e d - e\<bar> < th"
    by (cases "\<bar>lerp c e d - e\<bar> < th") simp_all
  have "map_option (Cons (lerp c e d)) (interpolate (lerp c e d) e d th) = Some (v # vs)"
    using eq by (simp only: if_not_P [OF nb])
  then obtain z where "interpolate (lerp c e d) e d th = Some z" "lerp c e d # z = v # vs"
    by (auto simp: map_option_eq_Some)
  with nb show ?thesis by simp
qed

lemma interpolate_returns_within:
  "\<bar>1 - d\<bar> ^ n * \<bar>c - e\<bar> < th \<Longrightarrow> 0 < n \<Longrightarrow> \<exists>vs. interpolate c e d th = Some vs \<and> length vs < n"
proof (induction n arbitrary: c)
  case 0
  then show ?case by simp
next
  case (Suc m)
  show ?case
  proof (cases "\<bar>lerp c e d - e\<bar> < th")
    case True
    then show ?thesis by (simp add: interpolate_step [of c])
  next
    case False
    have dist: "\<bar>lerp c e d - e\<bar> = \<bar>1 - d\<bar> * \<bar>c - e\<bar>" by (simp add: lerp_dist abs_mult)
    have "0 < m"
    proof (rule ccontr)
      assume "\<not> 0 < m"
      with Suc.prems(1) dist False show False by simp
    qed
    moreover have "\<bar>1 - d\<bar> ^ m * \<bar>lerp c e d - e\<bar> < th"
      using Suc.prems(1) dist by (simp add: mult_ac)
    ultimately obtain vs where "interpolate (lerp c e d) e d th = Some vs" "length vs < m"
      using Suc.IH by blast
    with False show ?thesis by (simp add: interpolate_step [of c])
  qed
qed

lemma interpolate_values:
  "interpolate c e d th = Some vs \<Longrightarrow>
     (\<forall>k < length vs. vs ! k = tick_value c e d (Suc k) \<and> th \<le> \<bar>vs ! k - e\<bar>)
   \<and> \<bar>tick_value c e d (Suc (length vs)) - e\<bar> < th"
proof (induction vs arbitrary: c)
  case Nil
  then show ?case using interpolate_Nil [OF Nil] by (simp add: tick_value_1)
next
  case (Cons v vs)
  from interpolate_Cons [OF Cons.prems] have nb: "\<not> \<bar>lerp c e d - e\<bar> < th"
    and v: "v = lerp c e d" and rec: "interpolate (lerp c e d) e d th = Some vs" by simp_all
  from Cons.IH [OF rec] have IH:
    "(\<forall>k < length vs. vs ! k = tick_value c e d (Suc (Suc k)) \<and> th \<le> \<bar>vs ! k - e\<bar>)
     \<and> \<bar>tick_value c e d (Suc (Suc (length vs))) - e\<bar> < th"
    unfolding tick_value_lerp .
  have "\<forall>k < length (v # vs). (v # vs) ! k = tick_value c e d (Suc k) \<and> th \<le> \<bar>(v # vs) ! k - e\<bar>"
  proof (intro allI impI)
    fix k assume k: "k < length (v # vs)"
    show "(v # vs) ! k = tick_value c e d (Suc k) \<and> th \<le> \<bar>(v # vs) ! k - e\<bar>"
    proof (cases k)
      case 0
      with v nb show ?thesis by (simp add: tick_value_1)
    next
      case (Suc k')
      with k have "k' < length vs" by simp
      then have e1: "vs ! k' = tick_value c e d (Suc (Suc k'))" and e2: "th \<le> \<bar>vs ! k' - e\<bar>"
        using IH by blast+
      have "(v # vs) ! k = vs ! k'" using Suc by simp
      with e1 e2 Suc show ?thesis by metis
    qed
  qed
  moreover have "\<bar>tick_value c e d (Suc (length (v # vs))) - e\<bar> < th"
    using IH by simp
  ultimately show ?case by (rule conjI)
qed


lemma interpolate_terminates:
  assumes d: "0 < d" "d \<le> 1" and th: "0 < th"
  shows "\<exists>vs. interpolate c e d th = Some vs"
proof -
  have x: "\<bar>1 - d\<bar> < 1" "0 \<le> \<bar>1 - d\<bar>" using d by auto
  obtain n where n: "\<bar>1 - d\<bar> ^ n * \<bar>c - e\<bar> < th"
  proof (cases "c = e")
    case True
    then show ?thesis using th that [of 0] by simp
  next
    case False
    then have pos: "0 < \<bar>c - e\<bar>" by simp
    then have "0 < th / \<bar>c - e\<bar>" using th by simp
    then obtain n where "\<bar>1 - d\<bar> ^ n < th / \<bar>c - e\<bar>" using real_arch_pow_inv x(1) by blast
    then show ?thesis using that [of n] pos by (simp add: pos_less_divide_eq)
  qed
  have "\<bar>1 - d\<bar> ^ Suc n \<le> \<bar>1 - d\<bar> ^ n"
    using x by (simp add: mult_left_le_one_le)
  then have "\<bar>1 - d\<bar> ^ Suc n * \<bar>c - e\<bar> < th"
    using n by (meson abs_ge_zero le_less_trans mult_right_mono)
  then show ?thesis using interpolate_returns_within [of d "Suc n" c e th] by blast
qed

lemma fireTicks_chain:
  "interpolate c e d th = Some vs \<Longrightarrow>
   fireTicks (length vs)
     (interpolateTick \<lparr>it_current = c, it_end = e, it_damping = d, it_threshold = th, it_caller = k\<rparr> s)
   = Some (rearmDecay k (s\<lparr>speed := e, lock := False, pendingTick := None\<rparr>))"
proof (induction vs arbitrary: c s)
  case Nil
  then show ?case using interpolate_Nil [OF Nil] by (simp add: interpolateTick_def)
next
  case (Cons v vs)
  from interpolate_Cons [OF Cons.prems] have nb: "\<not> \<bar>lerp c e d - e\<bar> < th"
    and v: "v = lerp c e d" and rec: "interpolate v e d th = Some vs" by simp_all
  let ?t = "\<lparr>it_current = c, it_end = e, it_damping = d, it_threshold = th, it_caller = k\<rparr>"
  let ?s1 = "s\<lparr>speed := v, pendingTick := Some (?t\<lparr>it_current := v\<rparr>)\<rparr>"
  have t1: "interpolateTick ?t s = ?s1" using nb v by (simp add: interpolateTick_def Let_def)
  have "fireTicks (length vs) (interpolateTick (?t\<lparr>it_current := v\<rparr>) (?s1\<lparr>pendingTick := None\<rparr>))
          = Some (rearmDecay k (?s1\<lparr>pendingTick := None\<rparr>\<lparr>speed := e, lock := False, pendingTick := None\<rparr>))"
    using Cons.IH [OF rec] by simp
  then show ?case using t1 by (simp add: interpTimerFires_def)
qed


lemma fireTicks_prefix:
  "interpolate c e d th = Some vs \<Longrightarrow> lock s \<Longrightarrow> j < length vs \<Longrightarrow>
   \<exists>s'. fireTicks j
      (interpolateTick \<lparr>it_current = c, it_end = e, it_damping = d, it_threshold = th, it_caller = k\<rparr> s)
      = Some s' \<and> speed s' = vs ! j \<and> lock s' \<and> pendingTick s' \<noteq> None"
proof (induction vs arbitrary: c s j)
  case Nil
  then show ?case by simp
next
  case (Cons v vs)
  from interpolate_Cons [OF Cons.prems(1)] have nb: "\<not> \<bar>lerp c e d - e\<bar> < th"
    and v: "v = lerp c e d" and rec: "interpolate v e d th = Some vs" by simp_all
  let ?t = "\<lparr>it_current = c, it_end = e, it_damping = d, it_threshold = th, it_caller = k\<rparr>"
  let ?s1 = "s\<lparr>speed := v, pendingTick := Some (?t\<lparr>it_current := v\<rparr>)\<rparr>"
  have t1: "interpolateTick ?t s = ?s1" using nb v by (simp add: interpolateTick_def Let_def)
  show ?case
  proof (cases j)
    case 0
    with t1 Cons.prems(2) show ?thesis by simp
  next
    case (Suc j')
    with Cons.prems(3) have "j' < length vs" by simp
    then obtain s' where "fireTicks j' (interpolateTick (?t\<lparr>it_current := v\<rparr>) (?s1\<lparr>pendingTick := None\<rparr>)) = Some s'"
        "speed s' = vs ! j'" "lock s'" "pendingTick s' \<noteq> None"
      using Cons.IH [OF rec, of "?s1\<lparr>pendingTick := None\<rparr>" j'] Cons.prems(2) by auto
    with t1 Suc show ?thesis by (simp add: interpTimerFires_def)
  qed
qed

lemma interpolateValues_chain:
  assumes "interpolate start e d th = Some vs" and "\<not> lock s"
  shows "fireTicks (length vs) (interpolateValues start e d th c s)
           = Some (rearmDecay c (s\<lparr>speed := e, lock := False, pendingTick := None\<rparr>))"
  using fireTicks_chain [OF assms(1), where s = "s\<lparr>lock := True\<rparr>" and k = c] assms(2)
  by (simp add: interpolateValues_def)

lemma component_constants: "0 < dampingCoefficient" "dampingCoefficient \<le> 1" "0 < default_threshold"
  by (simp_all add: dampingCoefficient_def default_threshold_def)

lemma calcDistance_nonneg: "0 \<le> calcDistance p q"
  by (simp add: calcDistance_def Let_def)

subsection \<open>Properties of the smoother\<close>

text \<open>
  C8. When the interpolation loop returns, the k-th value it writes to
  \<open>this.speed\<close> is \<open>end + (1 - damping)^(k+1) * (start - end)\<close> and is still at
  least the threshold away from \<open>end\<close>, and the value after the last written
  one is within the threshold: the loop stops at the first call that comes
  within the threshold.
\<close>
theorem interpolate_closed_form:
  assumes "interpolate c e d th = Some vs"
  shows "vs = map (\<lambda>k. e + (1 - d) ^ Suc k * (c - e)) [0..<length vs]
       \<and> list_all (\<lambda>v. th \<le> \<bar>v - e\<bar>) vs
       \<and> \<bar>(1 - d) ^ Suc (length vs) * (c - e)\<bar> < th"
proof -
  note iv = interpolate_values [OF assms]
  have v: "\<forall>k < length vs. vs ! k = tick_value c e d (Suc k) \<and> th \<le> \<bar>vs ! k - e\<bar>"
    using iv by (rule conjunct1)
  have last: "\<bar>tick_value c e d (Suc (length vs)) - e\<bar> < th"
    using iv by (rule conjunct2)
  have "vs = map (\<lambda>k. tick_value c e d (Suc k)) [0..<length vs]"
    by (rule nth_equalityI) (simp_all add: v)
  moreover have "list_all (\<lambda>v. th \<le> \<bar>v - e\<bar>) vs"
    using v by (auto simp: list_all_length)
  ultimately show ?thesis using last by (simp add: tick_value_def)
qed

theorem interpolate_closed_form_witness:
  "[5::real] = map (\<lambda>k. 10 + (1 - 1 / 2) ^ Suc k * (0 - 10)) [0..<length [5::real]]
   \<and> list_all (\<lambda>v. 3 \<le> \<bar>v - 10\<bar>) [5::real]
   \<and> \<bar>(1 - 1 / 2) ^ Suc (length [5::real]) * (0 - 10 :: real)\<bar> < 3"
  by (rule interpolate_closed_form) (simp add: interpolate.simps lerp_def)

text \<open>
  C9. Interpolating upwards (start below end) with a damping in (0, 1] and a
  positive threshold, the values written to \<open>this.speed\<close> increase strictly
  and stay below \<open>end\<close>.
\<close>
theorem interpolate_increasing:
  assumes "0 < d" "d \<le> 1" "0 < th" "c < e" and "interpolate c e d th = Some vs"
  shows "sorted_wrt (<) (c # vs) \<and> list_all (\<lambda>v. v < e) vs"
  using assms(4,5)
proof (induction vs arbitrary: c)
  case Nil
  then show ?case by simp
next
  case (Cons v vs)
  from interpolate_Cons [OF Cons.prems(2)] have nb: "\<not> \<bar>lerp c e d - e\<bar> < th"
    and v: "v = lerp c e d" and rec: "interpolate v e d th = Some vs" by simp_all
  have vc: "v = c + d * (e - c)" using v by (simp add: lerp_def algebra_simps)
  then have "c < v" using assms(1) Cons.prems(1) by simp
  moreover have "d * (e - c) \<le> e - c"
    using assms(1,2) Cons.prems(1) by (simp add: mult_left_le_one_le)
  then have "v \<le> e" using vc by simp
  moreover have "v \<noteq> e" using nb v assms(3) by auto
  ultimately have cv: "c < v" "v < e" by simp_all
  with Cons.IH [OF cv(2) rec] show ?case by auto
qed

theorem interpolate_increasing_witness:
  "sorted_wrt (<) (0 # [5::real]) \<and> list_all (\<lambda>v. v < 10) [5::real]"
  by (rule interpolate_increasing [where d = "1 / 2" and th = 3])
     (simp_all add: interpolate.simps lerp_def)

text \<open>
  C10. \<open>updateSpeed\<close> on a free lock settles: after finitely many 5ms
  callbacks the speed is exactly the distance of the move divided by the
  fixed sampling interval \<open>timeout\<close> (20ms, whatever time really passed
  between the two samples), the lock is free, nothing is pending, and the
  decay timeout is armed.
\<close>
theorem updateSpeed_settles_at_distance_over_timeout:
  assumes "\<not> lock s"
  shows "\<exists>n. fireTicks n (updateSpeed pp p s)
           = Some (s\<lparr>speed := calcDistance pp p / timeout, lock := False, pendingTick := None,
                     speedTimer := True\<rparr>)"
proof -
  let ?target = "calcDistance pp p / timeout"
  have tg: "(if calcDistance pp p > 0 then calcDistance pp p / timeout else 0) = ?target"
    using calcDistance_nonneg [of pp p] by auto
  obtain vs where vs: "interpolate (speed s) ?target dampingCoefficient default_threshold = Some vs"
    using interpolate_terminates [OF component_constants] by blast
  show ?thesis
    using interpolateValues_chain [OF vs assms, of ByUpdateSpeed] tg
    unfolding updateSpeed_def Let_def by (intro exI [of _ "length vs"]) (simp add: rearmDecay_def)
qed

theorem updateSpeed_settles_at_distance_over_timeout_witness:
  "\<exists>n. fireTicks n (updateSpeed \<lparr>px = 0, py = 0\<rparr> \<lparr>px = 3, py = 4\<rparr> data)
     = Some (data\<lparr>speed := calcDistance \<lparr>px = 0, py = 0\<rparr> \<lparr>px = 3, py = 4\<rparr> / timeout, lock := False,
                  pendingTick := None, speedTimer := True\<rparr>)"
  by (rule updateSpeed_settles_at_distance_over_timeout) (simp add: data_def)


text \<open>
  C11. An interpolation started on a free lock, with a damping in (0, 1] and
  a positive threshold, always finishes: after finitely many 5ms callbacks
  the speed is exactly \<open>end\<close>, the lock is released, no callback is pending,
  and the awaiting caller has run (\<open>updateSpeed\<close> re-arms the decay timer).
\<close>
theorem interpolation_chain_completes:
  assumes "0 < d" "d \<le> 1" "0 < th" "\<not> lock s"
  shows "\<exists>n. fireTicks n (interpolateValues start e d th c s)
              = Some (rearmDecay c (s\<lparr>speed := e, lock := False, pendingTick := None\<rparr>))"
proof -
  obtain vs where vs: "interpolate start e d th = Some vs"
    using interpolate_terminates [OF assms(1-3)] by blast
  from interpolateValues_chain [OF vs assms(4)] show ?thesis by blast
qed

theorem interpolation_chain_completes_witness:
  "\<exists>n. fireTicks n (interpolateValues 0 10 dampingCoefficient default_threshold ByUpdateSpeed data)
         = Some (rearmDecay ByUpdateSpeed (data\<lparr>speed := 10, lock := False, pendingTick := None\<rparr>))"
  by (rule interpolation_chain_completes) (simp_all add: dampingCoefficient_def default_threshold_def data_def)

text \<open>
  C12. The timer-driven execution refines the loop: after j of the 5ms
  callbacks, for j below the number of values the loop writes, the speed is
  the j-th value of the loop and the lock is held with a callback pending;
  after all of them the speed is \<open>end\<close> and the lock is free.
\<close>
theorem interpolateValues_refines_interpolate:
  assumes "\<not> lock s" and "interpolate start e d th = Some vs"
  shows "list_all (\<lambda>j. \<exists>s'. fireTicks j (interpolateValues start e d th c s) = Some s'
              \<and> speed s' = vs ! j \<and> lock s' \<and> pendingTick s' \<noteq> None) [0..<length vs]
       \<and> fireTicks (length vs) (interpolateValues start e d th c s)
           = Some (rearmDecay c (s\<lparr>speed := e, lock := False, pendingTick := None\<rparr>))"
proof -
  have iv: "interpolateValues start e d th c s
      = interpolateTick \<lparr>it_current = start, it_end = e, it_damping = d, it_threshold = th, it_caller = c\<rparr>
          (s\<lparr>lock := True\<rparr>)"
    using assms(1) by (simp add: interpolateValues_def)
  show ?thesis
    using fireTicks_prefix [OF assms(2), of "s\<lparr>lock := True\<rparr>" _ c] fireTicks_chain [OF assms(2)] iv
    by (simp add: list_all_iff)
qed

theorem interpolateValues_refines_interpolate_witness:
  "list_all (\<lambda>j. \<exists>s'. fireTicks j (interpolateValues 0 10 (1 / 2) 3 ByUpdateSpeed data) = Some s'
        \<and> speed s' = [5::real] ! j \<and> lock s' \<and> pendingTick s' \<noteq> None) [0..<length [5::real]]
   \<and> fireTicks (length [5::real]) (interpolateValues 0 10 (1 / 2) 3 ByUpdateSpeed data)
       = Some (rearmDecay ByUpdateSpeed (data\<lparr>speed := 10, lock := False, pendingTick := None\<rparr>))"
  by (rule interpolateValues_refines_interpolate) (simp_all add: data_def interpolate.simps lerp_def)

text \<open>
  C13. Reentrancy guard: a call of \<open>interpolateValues\<close> while the lock is held
  changes neither the speed, nor the lock, nor the pending callback; the only
  effect is that of the awaiting caller, which for \<open>updateSpeed\<close> re-arms the
  decay timer.
\<close>
theorem interpolateValues_locked_noop:
  assumes "lock s"
  shows "speed (interpolateValues start e d th c s) = speed s
       \<and> lock (interpolateValues start e d th c s)
       \<and> pendingTick (interpolateValues start e d th c s) = pendingTick s
       \<and> speedTimer (interpolateValues start e d th c s) = (c = ByUpdateSpeed \<or> speedTimer s)"
  using assms by (cases c) (simp_all add: interpolateValues_def rearmDecay_def)

theorem interpolateValues_locked_noop_witness:
  "speed (interpolateValues 3 0 (1 / 10) (1 / 100) ByDecayTimer (data\<lparr>lock := True, speed := 7\<rparr>)) = 7
   \<and> lock (interpolateValues 3 0 (1 / 10) (1 / 100) ByDecayTimer (data\<lparr>lock := True, speed := 7\<rparr>))
   \<and> pendingTick (interpolateValues 3 0 (1 / 10) (1 / 100) ByDecayTimer (data\<lparr>lock := True, speed := 7\<rparr>))
       = pendingTick (data\<lparr>lock := True, speed := 7\<rparr>)
   \<and> speedTimer (interpolateValues 3 0 (1 / 10) (1 / 100) ByDecayTimer (data\<lparr>lock := True, speed := 7\<rparr>))
       = (ByDecayTimer = ByUpdateSpeed \<or> speedTimer (data\<lparr>lock := True, speed := 7\<rparr>))"
  using interpolateValues_locked_noop [of "data\<lparr>lock := True, speed := 7\<rparr>" 3 0 "1 / 10" "1 / 100" ByDecayTimer]
  by simp

text \<open>
  C14. The decay timeout's interpolation, started on a free lock, settles at
  exactly 0 after finitely many 5ms callbacks, with the lock free, nothing
  pending and no timer armed: the decay callback does not re-arm itself, so
  the smoother then stays idle until the next sample.
\<close>
theorem decay_settles_without_rearming:
  assumes "\<not> lock s"
  shows "\<exists>n. fireTicks n (speedTimerFires s)
           = Some (s\<lparr>speed := 0, lock := False, pendingTick := None, speedTimer := False\<rparr>)"
proof -
  obtain vs where vs: "interpolate (speed s) 0 dampingCoefficient default_threshold = Some vs"
    using interpolate_terminates [OF component_constants] by blast
  have "\<not> lock (s\<lparr>speedTimer := False\<rparr>)" using assms by simp
  from interpolateValues_chain [OF vs this, of ByDecayTimer] show ?thesis
    unfolding speedTimerFires_def by (intro exI [of _ "length vs"]) (simp add: rearmDecay_def)
qed

theorem decay_settles_without_rearming_witness:
  "\<exists>n. fireTicks n (speedTimerFires (data\<lparr>speed := 5, speedTimer := True\<rparr>))
     = Some (data\<lparr>speed := 5, speedTimer := True\<rparr>\<lparr>speed := 0, lock := False, pendingTick := None,
                                                  speedTimer := False\<rparr>)"
  by (rule decay_settles_without_rearming) (simp add: data_def)

end
