(* ===== verification/Spin_Tester.thy ===== *)
theory Spin_Tester
  imports Quadrant Smoother
begin

text \<open>
  The component as a whole: the handlers of src/spin-tester.js that the
  browser calls (\<open>trackingState\<close> from the 20ms interval, \<open>handleMouseMove\<close>
  from the listener, the lifecycle hooks \<open>created\<close> and \<open>beforeDestroy\<close>)
  and the timer callbacks of the smoother, as events of a partial step
  function \<open>step\<close> (an event whose timer or listener is not armed cannot
  happen). Timing is abstracted: any interleaving of armed timers and
  mouse events is a run, so the safety properties hold for every schedule.
  \<open>reachable\<close> is the set of states of runs from \<open>init\<close> (the state after
  \<open>data ()\<close> and \<open>created\<close>), and \<open>spin_inv\<close> is the invariant every
  reachable state satisfies.
\<close>

subsection \<open>Handlers and events\<close>

definition trackingState :: "spin \<Rightarrow> spin" where
  "trackingState s = s\<lparr>isTracking := True\<rparr>"

definition created :: "spin \<Rightarrow> spin" where
  "created s = s\<lparr>trackTimer := True, listening := True\<rparr>"

definition beforeDestroy :: "spin \<Rightarrow> spin" where
  "beforeDestroy s = s\<lparr>trackTimer := False, listening := False\<rparr>"

definition handleMouseMove :: "body_metrics \<Rightarrow> mouse_event \<Rightarrow> spin \<Rightarrow> spin" where
  "handleMouseMove b e s =
     (if isTracking s then
        (let prePos = (if length (mousePosArr s) > 0 then Some (last (mousePosArr s)) else None);
             p = getMousePosition b e;
             s1 = s\<lparr>pos := Some p, mousePosArr := mousePosArr s @ [p]\<rparr>;
             section = determineSection prePos p;
             s2 = (case section of
                     None \<Rightarrow> s1
                   | Some sec \<Rightarrow> updateSection sec (s1\<lparr>direction := getDirection sec\<rparr>));
             s3 = (case (prePos, pos s2) of
                     (Some pp, Some cp) \<Rightarrow> updateSpeed pp cp s2
                   | _ \<Rightarrow> s2)
         in s3\<lparr>isTracking := False\<rparr>)
      else s)"

datatype event =
    MouseMove body_metrics mouse_event
  | IntervalTick
  | InterpTimer
  | SpeedTimer
  | Destroy

fun step :: "spin \<Rightarrow> event \<Rightarrow> spin option" where
  "step s (MouseMove b e) = (if listening s then Some (handleMouseMove b e s) else None)"
| "step s IntervalTick = (if trackTimer s then Some (trackingState s) else None)"
| "step s InterpTimer = interpTimerFires s"
| "step s SpeedTimer = (if speedTimer s then Some (speedTimerFires s) else None)"
| "step s Destroy = (if listening s then Some (beforeDestroy s) else None)"

definition init :: spin where
  "init = created data"

definition run :: "spin \<Rightarrow> event list \<Rightarrow> spin option" where
  "run s es = fold_opt step es s"

inductive reachable :: "spin \<Rightarrow> bool" where
  start: "reachable init"
| step: "reachable s \<Longrightarrow> step s e = Some t \<Longrightarrow> reachable t"

definition task_ok :: "interp_task \<Rightarrow> bool" where
  "task_ok t \<longleftrightarrow> it_damping t = dampingCoefficient \<and> it_threshold t = default_threshold
     \<and> 0 \<le> it_current t \<and> 0 \<le> it_end t \<and> (it_caller t = ByDecayTimer \<longrightarrow> it_end t = 0)"

definition speed_core :: "spin \<Rightarrow> bool" where
  "speed_core s \<longleftrightarrow> 0 \<le> speed s \<and> (lock s \<longleftrightarrow> pendingTick s \<noteq> None)
     \<and> pred_option task_ok (pendingTick s)"

definition quiescent_zero :: "spin \<Rightarrow> bool" where
  "quiescent_zero s \<longleftrightarrow> (pendingTick s = None \<and> \<not> speedTimer s \<longrightarrow> speed s = 0)"

definition spin_inv :: "spin \<Rightarrow> bool" where
  "spin_inv s \<longleftrightarrow> wf_arr (arrSection s) \<and> speed_core s \<and> quiescent_zero s"

text \<open>Scenario inputs: a body without scroll, and a mouse event at a page position.\<close>

definition body0 :: body_metrics where
  "body0 = \<lparr>scrollLeft = 0, scrollTop = 0, clientLeft = 0, clientTop = 0\<rparr>"

definition move_at :: "real \<Rightarrow> real \<Rightarrow> event" where
  "move_at x y = MouseMove body0 \<lparr>pageX = x, pageY = y, clientX = x, clientY = y\<rparr>"

text \<open>A state with an interpolation in flight and the decay timer armed.\<close>

definition locked_state :: spin where
  "locked_state = init\<lparr>lock := True, speedTimer := True, speed := 1,
     pendingTick := Some \<lparr>it_current = 1, it_end = 2, it_damping = dampingCoefficient,
                          it_threshold = default_threshold, it_caller = ByUpdateSpeed\<rparr>\<rparr>"

text \<open>A state whose history holds one sample at the origin.\<close>

definition moved_state :: spin where
  "moved_state = init\<lparr>mousePosArr := [\<lparr>px = 0, py = 0\<rparr>], pos := Some \<lparr>px = 0, py = 0\<rparr>\<rparr>"

text \<open>The state after one accepted sample and the next interval tick.\<close>

definition sampled_state :: spin where
  "sampled_state = trackingState (handleMouseMove body0 \<lparr>pageX = 1, pageY = 1, clientX = 1, clientY = 1\<rparr> init)"

text \<open>
  An interpolation in flight, one sample at the origin and section 2 visited:
  a move into section 1 then finds its successor visited and resets.
\<close>

definition reset_state :: spin where
  "reset_state = locked_state\<lparr>mousePosArr := [\<lparr>px = 0, py = 0\<rparr>], arrSection := [0, 1, 0, 0]\<rparr>"

subsection \<open>Invariant\<close>

lemma lerp_nonneg:
  "0 \<le> c \<Longrightarrow> 0 \<le> e \<Longrightarrow> 0 \<le> d \<Longrightarrow> d \<le> 1 \<Longrightarrow> 0 \<le> lerp c e d"
  by (simp add: lerp_def)

lemma damping_range: "0 \<le> dampingCoefficient" "dampingCoefficient \<le> 1"
  by (simp_all add: dampingCoefficient_def)

lemma interpolateTick_inv:
  assumes t: "task_ok t" and l: "lock s"
  shows "speed_core (interpolateTick t s) \<and> quiescent_zero (interpolateTick t s)"
proof -
  let ?v = "lerp (it_current t) (it_end t) (it_damping t)"
  have v: "0 \<le> ?v" using t damping_range by (intro lerp_nonneg) (auto simp: task_ok_def)
  show ?thesis
  proof (cases "\<bar>?v - it_end t\<bar> < it_threshold t")
    case True
    then show ?thesis using t
      by (cases "it_caller t") (auto simp: interpolateTick_def Let_def rearmDecay_def
            speed_core_def quiescent_zero_def task_ok_def)
  next
    case False
    then show ?thesis using t l v
      by (auto simp: interpolateTick_def Let_def speed_core_def quiescent_zero_def task_ok_def)
  qed
qed

lemma interpolateValues_inv:
  assumes core: "speed_core s" and st: "0 \<le> start" and tg: "0 \<le> target"
    and dec: "c = ByDecayTimer \<longrightarrow> target = 0"
  shows "speed_core (interpolateValues start target dampingCoefficient default_threshold c s)
       \<and> quiescent_zero (interpolateValues start target dampingCoefficient default_threshold c s)"
proof (cases "lock s")
  case True
  then show ?thesis using core
    by (cases c) (auto simp: interpolateValues_def rearmDecay_def speed_core_def quiescent_zero_def)
next
  case False
  have "task_ok \<lparr>it_current = start, it_end = target, it_damping = dampingCoefficient,
                 it_threshold = default_threshold, it_caller = c\<rparr>"
    using st tg dec by (simp add: task_ok_def)
  then show ?thesis using False
    by (simp add: interpolateValues_def interpolateTick_inv)
qed


lemma updateSection_frame:
  "lock (updateSection q s) = lock s \<and> pendingTick (updateSection q s) = pendingTick s
   \<and> speedTimer (updateSection q s) = speedTimer s \<and> listening (updateSection q s) = listening s
   \<and> trackTimer (updateSection q s) = trackTimer s \<and> isTracking (updateSection q s) = isTracking s
   \<and> (speed (updateSection q s) = speed s \<or> speed (updateSection q s) = 0)
   \<and> cumulate s \<le> cumulate (updateSection q s)"
  by (simp add: updateSection_def Let_def)

lemma updateSection_speed_inv:
  "speed_core s \<Longrightarrow> quiescent_zero s \<Longrightarrow>
   speed_core (updateSection q s) \<and> quiescent_zero (updateSection q s)"
  using updateSection_frame [of q s] by (auto simp: speed_core_def quiescent_zero_def)

lemma updateSpeed_inv:
  "speed_core s \<Longrightarrow> speed_core (updateSpeed pp p s) \<and> quiescent_zero (updateSpeed pp p s)"
  unfolding updateSpeed_def Let_def
  by (rule interpolateValues_inv) (auto simp: speed_core_def timeout_def calcDistance_nonneg)

lemma handleMouseMove_inv:
  assumes "spin_inv s"
  shows "spin_inv (handleMouseMove b e s)"
proof (cases "isTracking s")
  case False
  then show ?thesis using assms by (simp add: handleMouseMove_def)
next
  case True
  let ?prePos = "if length (mousePosArr s) > 0 then Some (last (mousePosArr s)) else None"
  let ?p = "getMousePosition b e"
  let ?s1 = "s\<lparr>pos := Some ?p, mousePosArr := mousePosArr s @ [?p]\<rparr>"
  define s2 where "s2 = (case determineSection ?prePos ?p of
                     None \<Rightarrow> ?s1
                   | Some sec \<Rightarrow> updateSection sec (?s1\<lparr>direction := getDirection sec\<rparr>))"
  have i1: "spin_inv ?s1" using assms by (simp add: spin_inv_def speed_core_def quiescent_zero_def)
  have i2: "spin_inv s2"
  proof (cases "determineSection ?prePos ?p")
    case None
    then show ?thesis using i1 by (simp add: s2_def)
  next
    case (Some sec)
    have "spin_inv (?s1\<lparr>direction := getDirection sec\<rparr>)"
      using i1 by (simp add: spin_inv_def speed_core_def quiescent_zero_def)
    then show ?thesis
      using Some updateSection_wf_arr updateSection_speed_inv by (simp add: s2_def spin_inv_def)
  qed
  have wf3: "wf_arr (arrSection (updateSpeed pp cp s2))" for pp cp
    using i2 by (simp add: spin_inv_def updateSpeed_def Let_def interpolateValues_def
        interpolateTick_def rearmDecay_def split: caller.splits)
  have i3: "spin_inv (case (?prePos, pos s2) of (Some pp, Some cp) \<Rightarrow> updateSpeed pp cp s2 | _ \<Rightarrow> s2)"
    using i2 wf3 updateSpeed_inv by (auto simp: spin_inv_def split: option.splits)
  show ?thesis
    using True i3 unfolding handleMouseMove_def Let_def s2_def [symmetric]
    by (simp add: spin_inv_def speed_core_def quiescent_zero_def)
qed


lemma interpTimerFires_inv:
  assumes "spin_inv s" and "interpTimerFires s = Some t"
  shows "spin_inv t"
proof -
  obtain k where k: "pendingTick s = Some k" and t: "t = interpolateTick k (s\<lparr>pendingTick := None\<rparr>)"
    using assms(2) by (auto simp: interpTimerFires_def split: option.splits)
  have "task_ok k" "lock s" using assms(1) k by (auto simp: spin_inv_def speed_core_def)
  then have "speed_core t \<and> quiescent_zero t" using t interpolateTick_inv by simp
  moreover have "arrSection t = arrSection s"
    using t by (simp add: interpolateTick_def Let_def rearmDecay_def split: caller.splits)
  ultimately show ?thesis using assms(1) by (simp add: spin_inv_def)
qed

lemma speedTimerFires_inv:
  assumes "spin_inv s"
  shows "spin_inv (speedTimerFires s)"
proof -
  have core: "speed_core (s\<lparr>speedTimer := False\<rparr>)" using assms by (simp add: spin_inv_def speed_core_def)
  have "0 \<le> speed s" using assms by (simp add: spin_inv_def speed_core_def)
  then have "speed_core (speedTimerFires s) \<and> quiescent_zero (speedTimerFires s)"
    unfolding speedTimerFires_def using interpolateValues_inv [OF core] by simp
  moreover have "arrSection (speedTimerFires s) = arrSection s"
    by (simp add: speedTimerFires_def interpolateValues_def interpolateTick_def Let_def rearmDecay_def)
  ultimately show ?thesis using assms by (simp add: spin_inv_def)
qed

lemma step_inv: "spin_inv s \<Longrightarrow> step s e = Some t \<Longrightarrow> spin_inv t"
proof (cases e)
  case (MouseMove b m)
  then show "spin_inv s \<Longrightarrow> step s e = Some t \<Longrightarrow> spin_inv t"
    using handleMouseMove_inv by (auto split: if_splits)
next
  case IntervalTick
  then show "spin_inv s \<Longrightarrow> step s e = Some t \<Longrightarrow> spin_inv t"
    by (auto simp: trackingState_def spin_inv_def speed_core_def quiescent_zero_def split: if_splits)
next
  case InterpTimer
  then show "spin_inv s \<Longrightarrow> step s e = Some t \<Longrightarrow> spin_inv t"
    using interpTimerFires_inv by simp
next
  case SpeedTimer
  then show "spin_inv s \<Longrightarrow> step s e = Some t \<Longrightarrow> spin_inv t"
    using speedTimerFires_inv by (auto split: if_splits)
next
  case Destroy
  then show "spin_inv s \<Longrightarrow> step s e = Some t \<Longrightarrow> spin_inv t"
    by (auto simp: beforeDestroy_def spin_inv_def speed_core_def quiescent_zero_def split: if_splits)
qed

lemma init_inv: "spin_inv init"
  by (simp add: init_def created_def data_def spin_inv_def wf_arr_def speed_core_def quiescent_zero_def)

lemma reachable_inv: "reachable s \<Longrightarrow> spin_inv s"
proof (induction rule: reachable.induct)
  case start
  show ?case by (rule init_inv)
next
  case (step s e t)
  then show ?case by (blast intro: step_inv)
qed


lemma smoother_frame:
  "cumulate (interpolateTick k s) = cumulate s \<and> arrSection (interpolateTick k s) = arrSection s
   \<and> isTracking (interpolateTick k s) = isTracking s \<and> mousePosArr (interpolateTick k s) = mousePosArr s"
  "cumulate (interpolateValues a b c d w s) = cumulate s
   \<and> arrSection (interpolateValues a b c d w s) = arrSection s
   \<and> isTracking (interpolateValues a b c d w s) = isTracking s
   \<and> mousePosArr (interpolateValues a b c d w s) = mousePosArr s"
  by (simp_all add: interpolateTick_def interpolateValues_def Let_def rearmDecay_def split: caller.splits)

lemma updateSpeed_frame:
  "cumulate (updateSpeed pp p s) = cumulate s \<and> isTracking (updateSpeed pp p s) = isTracking s"
  using smoother_frame(2) by (simp add: updateSpeed_def Let_def)

lemma handleMouseMove_cumulate: "cumulate s \<le> cumulate (handleMouseMove b e s)"
proof (cases "isTracking s")
  case True
  let ?prePos = "if length (mousePosArr s) > 0 then Some (last (mousePosArr s)) else None"
  let ?p = "getMousePosition b e"
  let ?s1 = "s\<lparr>pos := Some ?p, mousePosArr := mousePosArr s @ [?p]\<rparr>"
  define s2 where "s2 = (case determineSection ?prePos ?p of
                     None \<Rightarrow> ?s1
                   | Some sec \<Rightarrow> updateSection sec (?s1\<lparr>direction := getDirection sec\<rparr>))"
  have u: "cumulate s \<le> cumulate (updateSection sec (?s1\<lparr>direction := getDirection sec\<rparr>))" for sec
    using updateSection_frame [of sec "?s1\<lparr>direction := getDirection sec\<rparr>"] by simp
  have "cumulate s \<le> cumulate s2"
    unfolding s2_def by (cases "determineSection ?prePos ?p") (simp_all add: u)
  then have "cumulate s \<le> cumulate (case (?prePos, pos s2) of (Some pp, Some cp) \<Rightarrow> updateSpeed pp cp s2 | _ \<Rightarrow> s2)"
    using updateSpeed_frame by (simp split: option.splits)
  then show ?thesis
    using True unfolding handleMouseMove_def Let_def s2_def [symmetric] by simp
qed (simp add: handleMouseMove_def)

lemma updateSection_reset_or_keep:
  "(mousePosArr (updateSection q s) = [] \<and> pos (updateSection q s) = None \<and> speed (updateSection q s) = 0
     \<and> direction (updateSection q s) = Dir_Unknown)
   \<or> (mousePosArr (updateSection q s) = mousePosArr s \<and> pos (updateSection q s) = pos s
     \<and> direction (updateSection q s) = direction s)"
  by (simp add: updateSection_def Let_def)

lemma smoother_direction:
  "direction (interpolateTick k s) = direction s \<and> mousePosArr (interpolateTick k s) = mousePosArr s"
  "direction (interpolateValues a b c d w s) = direction s
   \<and> mousePosArr (interpolateValues a b c d w s) = mousePosArr s"
  by (simp_all add: interpolateTick_def interpolateValues_def Let_def rearmDecay_def split: caller.splits)

lemma updateSpeed_direction:
  "direction (updateSpeed pp p s) = direction s \<and> mousePosArr (updateSpeed pp p s) = mousePosArr s"
  using smoother_direction(2) by (simp add: updateSpeed_def Let_def)

lemma determineSection_label:
  "determineSection prePos p = Some q \<Longrightarrow> getDirection q \<noteq> Dir_Unknown"
  by (cases prePos) (auto simp: determineSection_def getDirection_def split: if_splits)

lemma updateSpeed_tracker:
  "arrSection (updateSpeed pp p s) = arrSection s \<and> cumulate (updateSpeed pp p s) = cumulate s"
  using smoother_frame(2) by (simp add: updateSpeed_def Let_def)

lemma interpolateTick_speed: "speed (interpolateTick k s) = speed (interpolateTick k s')"
  by (simp add: interpolateTick_def Let_def rearmDecay_def split: caller.split)

text \<open>The handler as its two stages: the tracker stage and the speed stage.\<close>

lemma handleMouseMove_stages:
  assumes "isTracking s"
  shows "handleMouseMove b e s =
     (let p = getMousePosition b e;
          prePos = (if mousePosArr s = [] then None else Some (last (mousePosArr s)));
          s1 = s\<lparr>pos := Some p, mousePosArr := mousePosArr s @ [p]\<rparr>;
          s2 = (case determineSection prePos p of None \<Rightarrow> s1
                | Some q \<Rightarrow> updateSection q (s1\<lparr>direction := getDirection q\<rparr>))
      in (case (prePos, pos s2) of (Some pp, Some cp) \<Rightarrow> updateSpeed pp cp s2 | _ \<Rightarrow> s2)
           \<lparr>isTracking := False\<rparr>)"
  using assms by (simp add: handleMouseMove_def Let_def)

subsection \<open>Runs of timers\<close>

lemma run_InterpTimers: "run s (replicate n InterpTimer) = fireTicks n s"
  by (induction n arbitrary: s) (simp_all add: run_def cong: Option.bind_cong)

lemma run_Cons_Some: "step s e = Some s' \<Longrightarrow> run s (e # es) = run s' es"
  by (simp add: run_def)

lemma interp_task_eta:
  "k = \<lparr>it_current = it_current k, it_end = it_end k, it_damping = it_damping k,
        it_threshold = it_threshold k, it_caller = it_caller k\<rparr>"
  by simp

lemma component_loop_terminates:
  "\<exists>vs. interpolate c e dampingCoefficient default_threshold = Some vs"
  by (rule interpolate_terminates) (simp_all add: dampingCoefficient_def default_threshold_def)

lemma drain_pending:
  assumes k: "pendingTick s = Some k" and ok: "task_ok k"
  shows "\<exists>n. run s (replicate n InterpTimer)
             = Some (rearmDecay (it_caller k) (s\<lparr>speed := it_end k, lock := False, pendingTick := None\<rparr>))"
proof -
  obtain vs where vs: "interpolate (it_current k) (it_end k) (it_damping k) (it_threshold k) = Some vs"
    using component_loop_terminates ok by (auto simp: task_ok_def)
  have "fireTicks (length vs) (interpolateTick k (s\<lparr>pendingTick := None\<rparr>))
          = Some (rearmDecay (it_caller k) (s\<lparr>pendingTick := None\<rparr>\<lparr>speed := it_end k, lock := False, pendingTick := None\<rparr>))"
    using fireTicks_chain [OF vs, of "it_caller k" "s\<lparr>pendingTick := None\<rparr>"] interp_task_eta [of k] by simp
  then have "fireTicks (Suc (length vs)) s
          = Some (rearmDecay (it_caller k) (s\<lparr>speed := it_end k, lock := False, pendingTick := None\<rparr>))"
    using k by (simp add: interpTimerFires_def)
  then show ?thesis using run_InterpTimers by metis
qed

lemma decay_from_free:
  assumes "\<not> lock s" "speedTimer s"
  shows "\<exists>es t. set es \<subseteq> {InterpTimer, SpeedTimer} \<and> run s es = Some t
           \<and> speed t = 0 \<and> pendingTick t = None \<and> \<not> speedTimer t \<and> \<not> lock t"
proof -
  let ?k = "\<lparr>it_current = speed s, it_end = 0, it_damping = dampingCoefficient,
             it_threshold = default_threshold, it_caller = ByDecayTimer\<rparr>"
  let ?s1 = "s\<lparr>speedTimer := False, lock := True\<rparr>"
  obtain vs where vs: "interpolate (speed s) 0 dampingCoefficient default_threshold = Some vs"
    using component_loop_terminates by blast
  have st: "step s SpeedTimer = Some (interpolateTick ?k ?s1)"
    using assms by (simp add: speedTimerFires_def interpolateValues_def)
  have "fireTicks (length vs) (interpolateTick ?k ?s1)
          = Some (rearmDecay ByDecayTimer (?s1\<lparr>speed := 0, lock := False, pendingTick := None\<rparr>))"
    by (rule fireTicks_chain [OF vs])
  then have "run s (SpeedTimer # replicate (length vs) InterpTimer)
          = Some (s\<lparr>speedTimer := False, speed := 0, lock := False, pendingTick := None\<rparr>)"
    using run_Cons_Some [OF st] run_InterpTimers by (simp add: rearmDecay_def)
  moreover have "set (SpeedTimer # replicate (length vs) InterpTimer) \<subseteq> {InterpTimer, SpeedTimer}"
    by auto
  ultimately show ?thesis by fastforce
qed


lemma run_append_Some: "run s xs = Some t \<Longrightarrow> run s (xs @ ys) = run t ys"
  by (simp add: run_def)

lemma settle_free:
  assumes "\<not> lock s" "pendingTick s = None" "speedTimer s \<or> speed s = 0"
  shows "\<exists>es t. set es \<subseteq> {InterpTimer, SpeedTimer} \<and> run s es = Some t
           \<and> speed t = 0 \<and> pendingTick t = None \<and> \<not> speedTimer t \<and> \<not> lock t"
proof (cases "speedTimer s")
  case True
  with assms(1) show ?thesis by (rule decay_from_free)
next
  case False
  with assms have "run s [] = Some s \<and> speed s = 0" by (simp add: run_def)
  with assms False show ?thesis by (intro exI [of _ "[]"] exI [of _ s]) simp
qed

subsection \<open>Properties of the component\<close>

text \<open>
  C19. Decay to zero: from every reachable state, the timers alone (5ms
  callbacks and the decay timeout, no further mouse input) bring the
  component to a state where the speed is exactly 0, the lock is free and
  nothing is pending.
\<close>
theorem timers_bring_speed_to_zero:
  assumes "reachable s"
  shows "\<exists>es t. set es \<subseteq> {InterpTimer, SpeedTimer} \<and> run s es = Some t
           \<and> speed t = 0 \<and> pendingTick t = None \<and> \<not> speedTimer t \<and> \<not> lock t"
proof -
  have inv: "spin_inv s" using assms by (rule reachable_inv)
  show ?thesis
  proof (cases "pendingTick s")
    case None
    then have "\<not> lock s" and "speedTimer s \<or> speed s = 0"
      using inv by (auto simp: spin_inv_def speed_core_def quiescent_zero_def)
    with None show ?thesis using settle_free by blast
  next
    case (Some k)
    have ok: "task_ok k" using inv Some by (simp add: spin_inv_def speed_core_def)
    let ?t1 = "rearmDecay (it_caller k) (s\<lparr>speed := it_end k, lock := False, pendingTick := None\<rparr>)"
    obtain n where n: "run s (replicate n InterpTimer) = Some ?t1"
      using drain_pending [OF Some ok] by blast
    have "speedTimer ?t1 \<or> speed ?t1 = 0"
      using ok by (cases "it_caller k") (auto simp: rearmDecay_def task_ok_def)
    moreover have "\<not> lock ?t1" "pendingTick ?t1 = None"
      by (cases "it_caller k"; simp add: rearmDecay_def)+
    ultimately obtain es t where es: "set es \<subseteq> {InterpTimer, SpeedTimer}" "run ?t1 es = Some t"
        "speed t = 0 \<and> pendingTick t = None \<and> \<not> speedTimer t \<and> \<not> lock t"
      using settle_free by blast
    have "run s (replicate n InterpTimer @ es) = Some t" using run_append_Some [OF n] es(2) by simp
    moreover have "set (replicate n InterpTimer @ es) \<subseteq> {InterpTimer, SpeedTimer}" using es(1) by auto
    ultimately show ?thesis using es(3) by blast
  qed
qed


text \<open>
  C15. In every reachable state the speed is non-negative (spec: "currentSpeed
  never negative").
\<close>
theorem reachable_speed_nonneg: "reachable s \<Longrightarrow> 0 \<le> speed s"
  using reachable_inv by (auto simp: spin_inv_def speed_core_def)

text \<open>
  C16. In every reachable state the reentrancy lock is held exactly when an
  interpolation is in flight, i.e. a 5ms callback is pending.
\<close>
theorem reachable_lock_iff_pending: "reachable s \<Longrightarrow> lock s \<longleftrightarrow> pendingTick s \<noteq> None"
  using reachable_inv by (auto simp: spin_inv_def speed_core_def)

text \<open>
  C17. In every reachable state with no interpolation in flight and no decay
  timeout armed, the speed is exactly 0.
\<close>
theorem reachable_quiescent_speed_zero:
  "reachable s \<Longrightarrow> pendingTick s = None \<Longrightarrow> \<not> speedTimer s \<Longrightarrow> speed s = 0"
  using reachable_inv by (auto simp: spin_inv_def quiescent_zero_def)

text \<open>
  C18. No event ever decreases the revolution count \<open>cumulate\<close>.
\<close>
theorem step_cumulate_mono: "step s e = Some t \<Longrightarrow> cumulate s \<le> cumulate t"
proof (cases e)
  case (MouseMove b m)
  then show "step s e = Some t \<Longrightarrow> cumulate s \<le> cumulate t"
    using handleMouseMove_cumulate by (auto split: if_splits)
next
  case InterpTimer
  then show "step s e = Some t \<Longrightarrow> cumulate s \<le> cumulate t"
    using smoother_frame(1) by (auto simp: interpTimerFires_def split: option.splits)
next
  case SpeedTimer
  then show "step s e = Some t \<Longrightarrow> cumulate s \<le> cumulate t"
    using smoother_frame(2) by (auto simp: speedTimerFires_def split: if_splits)
qed (auto simp: trackingState_def beforeDestroy_def split: if_splits)

text \<open>
  C20. A decay timeout that fires while an interpolation is in flight is
  dropped: the speed, the lock and the pending callback are unchanged and the
  timeout is consumed. The decay then waits until the running interpolation
  ends and \<open>updateSpeed\<close> re-arms the timeout.
\<close>
theorem decay_dropped_while_locked:
  assumes "lock s" and "step s SpeedTimer = Some t"
  shows "speed t = speed s \<and> lock t \<and> pendingTick t = pendingTick s \<and> \<not> speedTimer t"
  using assms by (auto simp: speedTimerFires_def interpolateValues_def rearmDecay_def split: if_splits)

text \<open>
  C21. \<open>beforeDestroy\<close> stops the mouse listener and the sampling interval, but
  not the pending 5ms interpolation callback nor the decay timeout: both can
  still fire after the component is destroyed.
\<close>
theorem destroy_keeps_timers:
  assumes "step s Destroy = Some t"
  shows "step t (MouseMove b e) = None \<and> step t IntervalTick = None
       \<and> (pendingTick s \<noteq> None \<longrightarrow> step t InterpTimer \<noteq> None)
       \<and> (speedTimer s \<longrightarrow> step t SpeedTimer \<noteq> None)"
  using assms by (auto simp: beforeDestroy_def interpTimerFires_def split: if_splits option.splits)

text \<open>
  C22. Sampling gate: a mouse event accepted while sampling is enabled
  disables sampling until the next interval tick, and a mouse event that
  arrives while sampling is disabled changes nothing.
\<close>
theorem sampling_gate:
  assumes "step s (MouseMove b e) = Some t"
  shows "(isTracking s \<longrightarrow> \<not> isTracking t) \<and> (\<not> isTracking s \<longrightarrow> t = s)"
  using assms by (auto simp: handleMouseMove_def Let_def split: if_splits)

text \<open>
  C24. The first sample (no previous position, as after every reset) is only
  recorded: it classifies no move, counts nothing and does not touch the
  speed, the lock or the pending callback.
\<close>
theorem first_sample_not_classified:
  assumes "mousePosArr s = []" and "step s (MouseMove b e) = Some t"
  shows "cumulate t = cumulate s \<and> arrSection t = arrSection s \<and> speed t = speed s
       \<and> lock t = lock s \<and> pendingTick t = pendingTick s
       \<and> (isTracking s \<longrightarrow> mousePosArr t = [getMousePosition b e])"
  using assms by (auto simp: handleMouseMove_def Let_def determineSection_def split: if_splits)


text \<open>
  C23. The mouse handler implements the tracker's contract in every reachable
  state: an event that is gated, or whose move is the first sample or is
  indeterminate, leaves the visited sections and the count alone; an event
  whose move is classified into section \<open>q\<close> changes them as \<open>track_spec q\<close>
  says. The speed stage that follows never touches them.
\<close>
theorem handleMouseMove_refines_track_spec:
  assumes "reachable s" and "step s (MouseMove b e) = Some t"
  shows "(visited (arrSection t), cumulate t)
       = (case (if isTracking s \<and> mousePosArr s \<noteq> []
                then determineSection (Some (last (mousePosArr s))) (getMousePosition b e) else None) of
            None \<Rightarrow> (visited (arrSection s), cumulate s)
          | Some q \<Rightarrow> track_spec q (visited (arrSection s), cumulate s))"
proof -
  have wf: "wf_arr (arrSection s)" using reachable_inv [OF assms(1)] by (simp add: spin_inv_def)
  have t: "t = handleMouseMove b e s" using assms(2) by (simp split: if_splits)
  show ?thesis
  proof (cases "isTracking s")
    case False
    then show ?thesis using t by (simp add: handleMouseMove_def)
  next
    case True
    let ?p = "getMousePosition b e"
    let ?prePos = "if mousePosArr s = [] then None else Some (last (mousePosArr s))"
    let ?s1 = "s\<lparr>pos := Some ?p, mousePosArr := mousePosArr s @ [?p]\<rparr>"
    define s2 where "s2 = (case determineSection ?prePos ?p of None \<Rightarrow> ?s1
                | Some q \<Rightarrow> updateSection q (?s1\<lparr>direction := getDirection q\<rparr>))"
    have sec: "(if isTracking s \<and> mousePosArr s \<noteq> [] then determineSection (Some (last (mousePosArr s))) ?p
                else None) = determineSection ?prePos ?p"
      using True by (simp add: determineSection_def)
    have abs2: "(visited (arrSection s2), cumulate s2)
        = (case determineSection ?prePos ?p of None \<Rightarrow> (visited (arrSection s), cumulate s)
           | Some q \<Rightarrow> track_spec q (visited (arrSection s), cumulate s))"
    proof (cases "determineSection ?prePos ?p")
      case None
      then show ?thesis by (simp add: s2_def)
    next
      case (Some q)
      have "wf_arr (arrSection (?s1\<lparr>direction := getDirection q\<rparr>))" using wf by simp
      from updateSection_abs_step [OF this determineSection_range [OF Some]] Some
      show ?thesis by (simp add: s2_def)
    qed
    have t2: "t = (case (?prePos, pos s2) of (Some pp, Some cp) \<Rightarrow> updateSpeed pp cp s2 | _ \<Rightarrow> s2)
                 \<lparr>isTracking := False\<rparr>"
      unfolding t by (rule handleMouseMove_stages [OF True, of b e, unfolded Let_def, folded s2_def])
    have "(visited (arrSection t), cumulate t) = (visited (arrSection s2), cumulate s2)"
      unfolding t2 using updateSpeed_tracker by (simp split: option.splits)
    then show ?thesis using abs2 sec by simp
  qed
qed

text \<open>
  C25. The smoother ignores the tracker's reset: when a mouse event resets
  the tracker while an interpolation is in flight, \<open>clearState\<close> writes
  speed 0, the pending callback and the lock are untouched, and the next 5ms
  callback writes exactly the speed it would have written without the
  reset, from its own closure value.
\<close>
theorem reset_speed_overwritten_by_interpolation:
  assumes "step s (MouseMove b e) = Some t" and "isTracking s" and "mousePosArr t = []"
    and "pendingTick s = Some k"
  shows "speed t = 0 \<and> pendingTick t = Some k \<and> lock t = lock s
       \<and> map_option speed (interpTimerFires t) = map_option speed (interpTimerFires s)"
proof -
  let ?p = "getMousePosition b e"
  let ?prePos = "if mousePosArr s = [] then None else Some (last (mousePosArr s))"
  let ?s1 = "s\<lparr>pos := Some ?p, mousePosArr := mousePosArr s @ [?p]\<rparr>"
  define s2 where "s2 = (case determineSection ?prePos ?p of None \<Rightarrow> ?s1
                | Some q \<Rightarrow> updateSection q (?s1\<lparr>direction := getDirection q\<rparr>))"
  have t: "t = (case (?prePos, pos s2) of (Some pp, Some cp) \<Rightarrow> updateSpeed pp cp s2 | _ \<Rightarrow> s2)
                 \<lparr>isTracking := False\<rparr>"
  proof -
    have "t = handleMouseMove b e s" using assms(1) by (simp split: if_splits)
    then show ?thesis
      by (simp only: handleMouseMove_stages [OF assms(2), of b e, unfolded Let_def, folded s2_def])
  qed
  have arr_t: "mousePosArr t = mousePosArr s2"
    unfolding t using updateSpeed_direction by (simp split: option.splits)
  obtain q where q: "determineSection ?prePos ?p = Some q"
    using assms(3) arr_t by (cases "determineSection ?prePos ?p") (simp_all add: s2_def)
  have s2: "s2 = updateSection q (?s1\<lparr>direction := getDirection q\<rparr>)" by (simp add: s2_def q)
  have reset: "mousePosArr s2 = [] \<and> pos s2 = None \<and> speed s2 = 0"
    using updateSection_reset_or_keep [of q "?s1\<lparr>direction := getDirection q\<rparr>"] assms(3) arr_t s2
    by auto
  have t2: "t = s2\<lparr>isTracking := False\<rparr>" using t reset by (simp split: option.splits)
  have fr: "pendingTick s2 = Some k \<and> lock s2 = lock s"
    using updateSection_frame [of q "?s1\<lparr>direction := getDirection q\<rparr>"] s2 assms(4) by simp
  have "map_option speed (interpTimerFires t) = Some (speed (interpolateTick k (t\<lparr>pendingTick := None\<rparr>)))"
    using t2 fr by (simp add: interpTimerFires_def)
  also have "\<dots> = Some (speed (interpolateTick k (s\<lparr>pendingTick := None\<rparr>)))"
    by (rule arg_cong [where f = Some], rule interpolateTick_speed)
  also have "\<dots> = map_option speed (interpTimerFires s)"
    using assms(4) by (simp add: interpTimerFires_def)
  finally show ?thesis using t2 fr reset by simp
qed

text \<open>
  C26. The reported direction: after an accepted mouse event whose move is
  classified into a section, either the move completed or aborted a
  revolution and the tracker was reset (empty history, unknown direction),
  or the position was appended to the history and the direction is the
  section's label, which is never the unknown label.
\<close>
theorem direction_reports_section:
  assumes "step s (MouseMove b e) = Some t" and "isTracking s"
    and "determineSection (if mousePosArr s = [] then None else Some (last (mousePosArr s)))
           (getMousePosition b e) = Some q"
  shows "((mousePosArr t = [] \<and> direction t = Dir_Unknown)
          \<or> (mousePosArr t = mousePosArr s @ [getMousePosition b e] \<and> direction t = getDirection q))
         \<and> getDirection q \<noteq> Dir_Unknown"
proof -
  let ?p = "getMousePosition b e"
  let ?s2 = "updateSection q (s\<lparr>pos := Some ?p, mousePosArr := mousePosArr s @ [?p],
                                 direction := getDirection q\<rparr>)"
  have ne: "mousePosArr s \<noteq> []"
    using assms(3) by (auto simp: determineSection_def)
  with assms(3) have ds: "determineSection (Some (last (mousePosArr s))) ?p = Some q" by simp
  have h: "handleMouseMove b e s
      = (case pos ?s2 of Some cp \<Rightarrow> updateSpeed (last (mousePosArr s)) cp ?s2 | None \<Rightarrow> ?s2)
          \<lparr>isTracking := False\<rparr>"
    using assms(2) ne unfolding handleMouseMove_def Let_def if_P [OF ne [unfolded length_greater_0_conv [symmetric]]] option.case ds by simp
  have t: "t = (case pos ?s2 of Some cp \<Rightarrow> updateSpeed (last (mousePosArr s)) cp ?s2 | None \<Rightarrow> ?s2)
                 \<lparr>isTracking := False\<rparr>"
    using assms(1) h by (simp split: if_splits)
  have "direction t = direction ?s2 \<and> mousePosArr t = mousePosArr ?s2"
    unfolding t using updateSpeed_direction by (simp split: option.splits)
  then show ?thesis
    using updateSection_reset_or_keep [of q "s\<lparr>pos := Some ?p, mousePosArr := mousePosArr s @ [?p],
                                 direction := getDirection q\<rparr>"] determineSection_label [OF ds]
    by auto
qed

lemma init_simps: "speed init = 0" "pendingTick init = None" "\<not> speedTimer init" "\<not> lock init"
  "listening init" "trackTimer init" "isTracking init" "mousePosArr init = []" "cumulate init = 0"
  by (simp_all add: init_def created_def data_def)

lemma sampled_state_simps:
  "mousePosArr sampled_state = [\<lparr>px = 1, py = 1\<rparr>]" "isTracking sampled_state" "listening sampled_state"
  "arrSection sampled_state = [0, 0, 0, 0]" "cumulate sampled_state = 0"
  by (simp_all add: sampled_state_def trackingState_def handleMouseMove_def init_def created_def data_def
      determineSection_def getMousePosition_def body0_def Let_def)

lemma sampled_state_reachable: "reachable sampled_state"
proof -
  have r1: "reachable (handleMouseMove body0 \<lparr>pageX = 1, pageY = 1, clientX = 1, clientY = 1\<rparr> init)"
    by (rule reachable.step [OF reachable.start,
          of "MouseMove body0 \<lparr>pageX = 1, pageY = 1, clientX = 1, clientY = 1\<rparr>"]) (simp add: init_simps)
  have "trackTimer (handleMouseMove body0 \<lparr>pageX = 1, pageY = 1, clientX = 1, clientY = 1\<rparr> init)"
    by (simp add: handleMouseMove_def init_def created_def data_def determineSection_def Let_def)
  then have "step (handleMouseMove body0 \<lparr>pageX = 1, pageY = 1, clientX = 1, clientY = 1\<rparr> init) IntervalTick
      = Some sampled_state" by (simp add: sampled_state_def)
  with r1 show ?thesis by (rule reachable.step)
qed

theorem reachable_speed_nonneg_witness: "0 \<le> speed init"
  by (rule reachable_speed_nonneg [OF reachable.start])

theorem reachable_lock_iff_pending_witness: "lock init \<longleftrightarrow> pendingTick init \<noteq> None"
  by (rule reachable_lock_iff_pending [OF reachable.start])

theorem reachable_quiescent_speed_zero_witness: "speed init = 0"
  by (rule reachable_quiescent_speed_zero [OF reachable.start]) (simp_all add: init_simps)

theorem step_cumulate_mono_witness:
  "cumulate init \<le> cumulate (trackingState init)"
  by (rule step_cumulate_mono [of init IntervalTick]) (simp add: init_simps)

theorem timers_bring_speed_to_zero_witness:
  "\<exists>es t. set es \<subseteq> {InterpTimer, SpeedTimer} \<and> run init es = Some t
      \<and> speed t = 0 \<and> pendingTick t = None \<and> \<not> speedTimer t \<and> \<not> lock t"
  by (rule timers_bring_speed_to_zero [OF reachable.start])

theorem decay_dropped_while_locked_witness:
  "speed (speedTimerFires locked_state) = speed locked_state \<and> lock (speedTimerFires locked_state)
   \<and> pendingTick (speedTimerFires locked_state) = pendingTick locked_state
   \<and> \<not> speedTimer (speedTimerFires locked_state)"
  by (rule decay_dropped_while_locked) (simp_all add: locked_state_def)

theorem destroy_keeps_timers_witness:
  "step (beforeDestroy locked_state) (move_at 0 0) = None \<and> step (beforeDestroy locked_state) IntervalTick = None
   \<and> step (beforeDestroy locked_state) InterpTimer \<noteq> None
   \<and> step (beforeDestroy locked_state) SpeedTimer \<noteq> None"
proof -
  have "step locked_state Destroy = Some (beforeDestroy locked_state)"
    by (simp add: locked_state_def init_simps)
  from destroy_keeps_timers [OF this, of body0 "\<lparr>pageX = 0, pageY = 0, clientX = 0, clientY = 0\<rparr>"]
  show ?thesis unfolding move_at_def by (simp add: locked_state_def)
qed

theorem sampling_gate_witness:
  "\<not> isTracking (handleMouseMove body0 \<lparr>pageX = 3, pageY = 4, clientX = 3, clientY = 4\<rparr> init)
   \<and> handleMouseMove body0 \<lparr>pageX = 3, pageY = 4, clientX = 3, clientY = 4\<rparr> (init\<lparr>isTracking := False\<rparr>) = init\<lparr>isTracking := False\<rparr>"
proof -
  have on: "step init (MouseMove body0 \<lparr>pageX = 3, pageY = 4, clientX = 3, clientY = 4\<rparr>) = Some (handleMouseMove body0 \<lparr>pageX = 3, pageY = 4, clientX = 3, clientY = 4\<rparr> init)"
    by (simp add: init_simps)
  have off: "step (init\<lparr>isTracking := False\<rparr>) (MouseMove body0 \<lparr>pageX = 3, pageY = 4, clientX = 3, clientY = 4\<rparr>)
      = Some (handleMouseMove body0 \<lparr>pageX = 3, pageY = 4, clientX = 3, clientY = 4\<rparr> (init\<lparr>isTracking := False\<rparr>))"
    by (simp add: init_simps)
  from sampling_gate [OF on] sampling_gate [OF off] show ?thesis
    by (simp add: init_simps)
qed

theorem first_sample_not_classified_witness:
  "cumulate (handleMouseMove body0 \<lparr>pageX = 3, pageY = 4, clientX = 3, clientY = 4\<rparr> init) = cumulate init
   \<and> arrSection (handleMouseMove body0 \<lparr>pageX = 3, pageY = 4, clientX = 3, clientY = 4\<rparr> init) = arrSection init
   \<and> speed (handleMouseMove body0 \<lparr>pageX = 3, pageY = 4, clientX = 3, clientY = 4\<rparr> init) = speed init
   \<and> lock (handleMouseMove body0 \<lparr>pageX = 3, pageY = 4, clientX = 3, clientY = 4\<rparr> init) = lock init
   \<and> pendingTick (handleMouseMove body0 \<lparr>pageX = 3, pageY = 4, clientX = 3, clientY = 4\<rparr> init) = pendingTick init
   \<and> mousePosArr (handleMouseMove body0 \<lparr>pageX = 3, pageY = 4, clientX = 3, clientY = 4\<rparr> init) = [getMousePosition body0 \<lparr>pageX = 3, pageY = 4, clientX = 3, clientY = 4\<rparr>]"
  using first_sample_not_classified [of init body0 "\<lparr>pageX = 3, pageY = 4, clientX = 3, clientY = 4\<rparr>" "handleMouseMove body0 \<lparr>pageX = 3, pageY = 4, clientX = 3, clientY = 4\<rparr> init"]
  by (simp add: init_simps)

theorem direction_reports_section_witness:
  "((mousePosArr (handleMouseMove body0 \<lparr>pageX = 3, pageY = 4, clientX = 3, clientY = 4\<rparr> moved_state) = []
     \<and> direction (handleMouseMove body0 \<lparr>pageX = 3, pageY = 4, clientX = 3, clientY = 4\<rparr> moved_state) = Dir_Unknown)
    \<or> (mousePosArr (handleMouseMove body0 \<lparr>pageX = 3, pageY = 4, clientX = 3, clientY = 4\<rparr> moved_state)
         = [\<lparr>px = 0, py = 0\<rparr>, \<lparr>px = 3, py = 4\<rparr>]
       \<and> direction (handleMouseMove body0 \<lparr>pageX = 3, pageY = 4, clientX = 3, clientY = 4\<rparr> moved_state)
         = Dir_UpperRight))
   \<and> Dir_UpperRight \<noteq> Dir_Unknown"
  using direction_reports_section [of moved_state body0 "\<lparr>pageX = 3, pageY = 4, clientX = 3, clientY = 4\<rparr>"
      "handleMouseMove body0 \<lparr>pageX = 3, pageY = 4, clientX = 3, clientY = 4\<rparr> moved_state" 1]
  by (simp add: moved_state_def init_simps determineSection_def getMousePosition_def getDirection_def)

theorem handleMouseMove_refines_track_spec_witness:
  "(visited (arrSection (handleMouseMove body0 \<lparr>pageX = 4, pageY = 5, clientX = 4, clientY = 5\<rparr> sampled_state)),
    cumulate (handleMouseMove body0 \<lparr>pageX = 4, pageY = 5, clientX = 4, clientY = 5\<rparr> sampled_state))
   = track_spec 1 (visited [0, 0, 0, 0], 0)"
  using handleMouseMove_refines_track_spec [OF sampled_state_reachable,
      of body0 "\<lparr>pageX = 4, pageY = 5, clientX = 4, clientY = 5\<rparr>"
         "handleMouseMove body0 \<lparr>pageX = 4, pageY = 5, clientX = 4, clientY = 5\<rparr> sampled_state"]
  by (simp add: sampled_state_simps determineSection_def getMousePosition_def)

theorem reset_speed_overwritten_by_interpolation_witness:
  "speed (handleMouseMove body0 \<lparr>pageX = 3, pageY = 4, clientX = 3, clientY = 4\<rparr> reset_state) = 0
   \<and> pendingTick (handleMouseMove body0 \<lparr>pageX = 3, pageY = 4, clientX = 3, clientY = 4\<rparr> reset_state)
       = pendingTick locked_state
   \<and> lock (handleMouseMove body0 \<lparr>pageX = 3, pageY = 4, clientX = 3, clientY = 4\<rparr> reset_state) = lock reset_state
   \<and> map_option speed (interpTimerFires (handleMouseMove body0 \<lparr>pageX = 3, pageY = 4, clientX = 3, clientY = 4\<rparr> reset_state))
       = map_option speed (interpTimerFires reset_state)"
proof -
  have ev: "mousePosArr (handleMouseMove body0 \<lparr>pageX = 3, pageY = 4, clientX = 3, clientY = 4\<rparr> reset_state) = []"
    by (simp add: reset_state_def locked_state_def init_simps handleMouseMove_def Let_def determineSection_def
        getMousePosition_def body0_def getDirection_def updateSection_def secPre_def secNext_def)
  show ?thesis
    using reset_speed_overwritten_by_interpolation [of reset_state body0
        "\<lparr>pageX = 3, pageY = 4, clientX = 3, clientY = 4\<rparr>"
        "handleMouseMove body0 \<lparr>pageX = 3, pageY = 4, clientX = 3, clientY = 4\<rparr> reset_state"
        "\<lparr>it_current = 1, it_end = 2, it_damping = dampingCoefficient,
          it_threshold = default_threshold, it_caller = ByUpdateSpeed\<rparr>"] ev
    by (simp add: reset_state_def locked_state_def init_simps)
qed

end
