(* ===== verification/Spec2Isabelle.thy ===== *)
theory Spec2Isabelle
  imports Spin_Tester
begin

text \<open>
  \<^bold>\<open>A verification development of the spin-tester component.\<close>

  The program (src/spin-tester.js) is one Vue component, \<open>spin-tester\<close>, that
  watches \<open>mousemove\<close> events, detects clockwise circular motion across four
  sections, counts revolutions (\<open>cumulate\<close>), shows a smoothed speed and the
  sector the pointer is moving in. Its parts:
  \<^item> the quadrant tracker: \<open>determineSection\<close>, \<open>getDirection\<close>,
    \<open>updateSection\<close> and \<open>clearState\<close>, over the fields \<open>arrSection\<close>,
    \<open>mousePosArr\<close>, \<open>pos\<close>, \<open>direction\<close> and \<open>cumulate\<close>;
  \<^item> the speed smoother: \<open>calcDistance\<close>, \<open>lerp\<close>, the timer-driven
    \<open>interpolateValues\<close> guarded by \<open>lock\<close>, \<open>updateSpeed\<close> and its 50ms decay
    timeout, over \<open>speed\<close>;
  \<^item> the event plumbing: \<open>created\<close> arms a 20ms interval (\<open>trackingState\<close>
    re-enables sampling) and the \<open>mousemove\<close> listener \<open>handleMouseMove\<close>, which
    reads the position (\<open>getMousePosition\<close>), classifies the move, updates the
    tracker, then the speed; \<open>beforeDestroy\<close> removes the interval and listener.
  The two cores share the component's state: \<open>clearState\<close>, called by the
  tracker, also zeroes \<open>speed\<close>.

  \<^bold>\<open>Theories.\<close>
  \<^item> \<open>Spin_Prelude\<close>: named collections, running a partial step function over an
    event list (\<open>fold_opt\<close>), facts on 0/1 lists.
  \<^item> \<open>Spin_State\<close>: the component's state as the record \<open>spin\<close> (one field per
    field of \<open>data ()\<close> that a method writes, plus the armed timers and the
    pending 5ms callback), the constants \<open>timeout\<close>, \<open>dampingCoefficient\<close> and
    the default threshold, \<open>data\<close>, \<open>clearState\<close> and \<open>getMousePosition\<close>.
  \<^item> \<open>Quadrant\<close>: the tracker. \<open>determineSection\<close> and \<open>getDirection\<close> are the
    source's if-chains; \<open>updateSection\<close> is translated statement by
    statement (the array update, the \<open>reduce\<close> as \<open>sum_list\<close>, the reset of a
    completed revolution, the lookup tables \<open>secPre\<close>/\<open>secNext\<close>, the clockwise
    test and its reset). The array is abstracted to the set of visited
    sections (\<open>visited\<close>), on which \<open>track_spec\<close> states the contract; the
    refinement lemma \<open>updateSection_abs_step\<close> and its lifting to runs
    (\<open>fold_updateSection_abs\<close>) carry the properties proved on the contract
    (\<open>track_spec_revolution_abs\<close>, \<open>fold_track_spec_walk\<close>) to the code.
  \<^item> \<open>Smoother\<close>: the speed smoother. \<open>calcDistance\<close>, \<open>lerp\<close>; the recursive
    \<open>interpolate\<close> closure as a \<open>partial_function (option)\<close> that returns the
    list of values it writes (\<open>None\<close> would be a loop that never ends); and
    its timer-driven execution: \<open>interpolateValues\<close> takes the lock and runs
    the first call, each later call is the 5ms callback \<open>interpTimerFires\<close>
    of the pending \<open>interp_task\<close> (the closure's value, end, damping,
    threshold and awaiting caller), and the last one sets \<open>speed := end\<close>,
    releases the lock (\<open>finally\<close>) and runs the caller's continuation
    (\<open>rearmDecay\<close>: \<open>updateSpeed\<close> arms the 50ms decay timeout, the decay
    callback \<open>speedTimerFires\<close> does nothing more). \<open>fireTicks n\<close> fires n
    pending callbacks in a row.
  \<^item> \<open>Spin_Tester\<close>: the component: \<open>trackingState\<close>, \<open>handleMouseMove\<close> (read
    the position, append it, classify, update the tracker, update the
    speed, close the sampling gate), \<open>created\<close>, \<open>beforeDestroy\<close>; the
    browser's dispatch as \<open>step\<close> over the \<open>event\<close> datatype (a mouse event
    needs the listener, an interval tick the interval, a timer callback an
    armed timer), runs \<open>run\<close>, the reachable states \<open>reachable\<close> from \<open>init\<close>
    (\<open>data\<close> after \<open>created\<close>) and the invariant \<open>spin_inv\<close>.

  \<^bold>\<open>What is shown.\<close>
  Of the tracker: a revolution is counted exactly at the end of a clockwise
  walk (C1, C2); \<open>updateSection\<close> refines the set-level contract and keeps the
  array well formed (C3, C7); turning a move a quarter turn clockwise moves
  its section to the clockwise successor, and section 1 is the moves right
  and down, so the sections are the quadrants in clockwise order (C4); the
  first sample and axis-aligned moves are indeterminate (C5); a move keeps
  the walk exactly when the successor section is unvisited and not all four
  are marked, whatever the predecessor (C6), contrary to the spec's "Q1 then
  Q3 resets": the code's predecessor test \<open>=== 0 || === 1\<close> always holds.
  Of the smoother: the closed form of the values the loop writes, and that it
  stops exactly at the first value within the threshold (C8); upwards it is
  strictly increasing and below its end value (C9); \<open>updateSpeed\<close> settles at
  the distance over the fixed 20ms interval and arms the decay (C10); the
  timer-driven chain always completes and releases the lock (C11) and
  writes, tick by tick, the values of the loop (C12, a refinement); a call
  while the lock is held changes nothing but re-arming (C13); the decay
  settles at exactly 0 and does not re-arm itself (C14).
  Of the component, for every interleaving of events: the speed is never
  negative (C15); the lock is held exactly while a 5ms callback is pending
  (C16); with nothing in flight and no decay armed the speed is 0 (C17);
  \<open>cumulate\<close> never decreases (C18); from every reachable state the timers
  alone bring the speed to 0 and free everything (C19, liveness); a decay
  firing during an interpolation is lost (C20); \<open>beforeDestroy\<close> leaves the
  smoother's timers running (C21); the sampling gate admits one mouse event
  per interval tick (C22); in every reachable state the mouse handler
  implements the tracker contract on the visited sections and the count
  (C23, a refinement of the handler); a first sample classifies nothing
  (C24); the speed that a reset zeroes is overwritten by the interpolation
  in flight with the value it would have written anyway (C25); and the
  direction shown after a classified move is that section's label unless
  the move reset the tracker (C26).

  \<^bold>\<open>Modelling choices.\<close>
  JavaScript numbers are \<open>real\<close>: the component never depends on rounding or
  overflow of doubles, so the model is the arithmetic the code means;
  \<open>dampingCoefficient = 0.1\<close> and the threshold \<open>0.01\<close> are the exact
  rationals. The direction labels are the five constructors of \<open>dir\<close>.
  Timers are flags (armed or not) and wall-clock time is abstracted: any
  order of armed callbacks and mouse events is a run, which covers every
  schedule the browser can produce, so the invariants and safety properties
  hold for all timings; the spec's "about 50ms" is therefore not expressed.
  Promise resolution and the microtasks after it (\<open>finally\<close>, the awaiting
  caller's continuation) run before the next macrotask, so they are folded
  into the step of the callback that resolves. The loop \<open>interpolate\<close>
  terminates whenever \<open>0 < damping \<le> 1\<close> and \<open>0 < threshold\<close> (lemma
  \<open>interpolate_terminates\<close>: the distance to the end value shrinks by the
  factor \<open>1 - damping\<close> per call, and some power of it falls below the
  threshold); the component's constants satisfy both, so every chain ends
  (C11) and no fuel bound is needed beyond the length of that list.

  \<^bold>\<open>Findings.\<close> The code diverges from the spec where the decay timeout
  is dropped while an interpolation holds the lock (C20), where destruction
  leaves the smoother's timers running (C21), where the tracker's
  \<open>clearState\<close> zeroes the smoother's speed and the running interpolation
  writes over it (C25), where the direction is reset to unknown on the
  sample that completes or aborts a revolution (C26), where the predecessor
  test never rejects a skipped section (C6), and where the target speed
  divides by the fixed 20ms interval rather than the elapsed time (C10). The spec does not say
  that the samples around a reset are not used for the speed and the next
  classification (C24).

  \<^bold>\<open>Not modelled.\<close> The template (rendering), the root \<open>new Vue\<close>
  instance, and the fields \<open>fixSpeed\<close>, \<open>smoothedSpeed\<close> and \<open>section\<close>,
  which no method reads or writes. Vue's reactivity (re-rendering on
  writes) has no effect on the component's state and is omitted.
\<close>

end
